theory Spec2Isabelle
  imports Complex_Main "HOL-Library.Multiset" "HOL-Library.Log_Nat"
begin

section \<open>The rules engine of \<open>src/src/tetris.ts\<close>\<close>

text \<open>
  The class \<open>TetrisGame\<close> is embedded with explicit state passing: every method takes the
  engine state and returns the new one. Numbers that the engine only ever uses as integers
  (coordinates, score, level, lines, combo, back-to-back) are \<open>int\<close>, the rotation state,
  which only takes the values 0 to 3, is \<open>nat\<close>. The three timers and the frame time are
  doubles: a finite double is a rational number, and the sums, differences and products
  that the code takes of them are rounded to the nearest double (\<open>roundDouble\<close> below), as
  IEEE 754 arithmetic does. The two \<open>while\<close> loops whose exit depends on the piece catalog
  (\<open>getDropDistance\<close> and the gravity loop of \<open>update\<close>) are partial functions in the
  option monad: \<open>None\<close> means that the loop does not return. The calls of
  \<open>Math.random()\<close> read a stream of numbers that the state carries.

  The board is a list of rows, each a list of cells. It is private to the class, made by
  \<open>createBoard\<close> and written only by \<open>lockPiece\<close> and \<open>clearLines\<close>; it always has
  \<open>TOTAL_ROWS\<close> rows of \<open>COLS\<close> cells (lemma \<open>reachable_boardShape\<close> below), so the list
  reads and writes of the model, which follow the array accesses of the source, are in
  range.
\<close>

subsection \<open>Data\<close>

text \<open>
  \<open>PieceType\<close> is imported from \<open>./tetromino\<close>; its seven members are the keys of
  \<open>SPAWN_POSITIONS\<close> (\<open>'I'\<close>, \<open>'O'\<close>, \<open>'T'\<close>, \<open>'S'\<close>, \<open>'Z'\<close>, \<open>'J'\<close>, \<open>'L'\<close>).
\<close>

datatype PieceType = PcI | PcO | PcT | PcS | PcZ | PcJ | PcL

type_synonym BoardCell = "PieceType option"

type_synonym Board = "BoardCell list list"

datatype GameState = playing | paused | over

record ActivePiece =
  ptype :: PieceType
  rotation :: nat
  px :: int
  py :: int

text \<open>
  The tables \<open>TETROMINO_SHAPES\<close> and \<open>getKickData\<close> belong to the piece catalog
  \<open>./tetromino\<close>, not to the engine; they are parameters of the model. A shape table gives
  every piece type its list of rotation states, at least one, each a matrix of cells
  (\<open>True\<close> for an occupied cell).
\<close>

record Catalog =
  TETROMINO_SHAPES :: "PieceType \<Rightarrow> bool list list list"
  getKickData :: "PieceType \<Rightarrow> nat \<Rightarrow> nat \<Rightarrow> (int \<times> int) list"

text \<open>
  The fields of the class. \<open>rng\<close> is the stream of values that the coming calls of
  \<open>Math.random()\<close> return: \<open>rng s 0\<close> is the next one.
\<close>

record TetrisGame =
  board :: Board
  queue :: "PieceType list"
  active :: "ActivePiece option"
  holdPiece :: "PieceType option"
  canHold :: bool
  gravityTimer :: rat
  gravityInterval :: rat
  lockTimer :: rat
  grounded :: bool
  softDropActive :: bool
  state :: GameState
  score :: int
  level :: int
  lines :: int
  combo :: int
  backToBack :: int
  rng :: "nat \<Rightarrow> rat"

abbreviation COLS :: int where "COLS \<equiv> 10"

abbreviation TOTAL_ROWS :: int where "TOTAL_ROWS \<equiv> 22"

abbreviation LOCK_DELAY_MS :: rat where "LOCK_DELAY_MS \<equiv> 500"

abbreviation SOFT_DROP_INTERVAL :: rat where "SOFT_DROP_INTERVAL \<equiv> 50"

definition LINE_SCORES :: "int list" where
  "LINE_SCORES = [0, 100, 300, 500, 800]"

fun SPAWN_POSITIONS :: "PieceType \<Rightarrow> int \<times> int" where
  "SPAWN_POSITIONS PcI = (3, -2)"
| "SPAWN_POSITIONS PcO = (3, -1)"
| "SPAWN_POSITIONS PcT = (3, -1)"
| "SPAWN_POSITIONS PcS = (3, -1)"
| "SPAWN_POSITIONS PcZ = (3, -1)"
| "SPAWN_POSITIONS PcJ = (3, -1)"
| "SPAWN_POSITIONS PcL = (3, -1)"

text \<open>
  Modelled from the spec: \<open>PIECE_TYPES\<close> is imported from \<open>./tetromino\<close>, which is not
  among the sources; the spec says that a bag holds all 7 types, each once.
\<close>

definition PIECE_TYPES :: "PieceType list" where
  "PIECE_TYPES = [PcI, PcO, PcT, PcS, PcZ, PcJ, PcL]"

definition emptyRow :: "BoardCell list" where
  "emptyRow = replicate (nat COLS) None"

definition createBoard :: Board where
  "createBoard = replicate (nat TOTAL_ROWS) emptyRow"

subsection \<open>Double arithmetic\<close>

text \<open>
  \<open>roundDouble x\<close> is the double nearest to the rational \<open>x\<close>, ties going to the even
  significand (the rounding of IEEE 754 binary64): \<open>e\<close> is the binary exponent of \<open>x\<close>, not
  below the exponent \<open>-1022\<close> of the subnormal numbers, and the doubles around \<open>x\<close> are the
  multiples of \<open>2 ^ (e - 52)\<close>. The numbers of the engine stay far inside the range of the
  doubles, so the overflow to \<open>Infinity\<close> is not modelled. A decimal literal of the source,
  such as \<open>0.007\<close>, is the double \<open>roundDouble (7 / 1000)\<close>.
\<close>

definition pow2 :: "int \<Rightarrow> rat" where
  "pow2 i = (if 0 \<le> i then 2 ^ nat i else 1 / 2 ^ nat (- i))"

definition binaryExponent :: "rat \<Rightarrow> int" where
  "binaryExponent a = (if 1 \<le> a then bitlen \<lfloor>a\<rfloor> - 1 else - bitlen (\<lceil>1 / a\<rceil> - 1))"

definition roundDouble :: "rat \<Rightarrow> rat" where
  "roundDouble x =
     (if x = 0 then 0
      else
        let a = \<bar>x\<bar>;
            e = max (binaryExponent a) (- 1022);
            ulp = pow2 (e - 52);
            q = a / ulp;
            n = \<lfloor>q\<rfloor>;
            r = q - of_int n;
            m = (if r < 1 / 2 then n
                 else if 1 / 2 < r then n + 1
                 else if even n then n else n + 1)
        in sgn x * of_int m * ulp)"

text \<open>The operators \<open>+\<close>, \<open>-\<close> and \<open>*\<close> of the source on doubles.\<close>

definition addDouble :: "rat \<Rightarrow> rat \<Rightarrow> rat" where
  "addDouble x y = roundDouble (x + y)"

definition subDouble :: "rat \<Rightarrow> rat \<Rightarrow> rat" where
  "subDouble x y = roundDouble (x - y)"

definition mulDouble :: "rat \<Rightarrow> rat \<Rightarrow> rat" where
  "mulDouble x y = roundDouble (x * y)"

subsection \<open>The bag randomizer\<close>

text \<open>
  \<open>shuffle\<close>: the loop runs \<open>i\<close> from \<open>length - 1\<close> down to 1, draws
  \<open>j = floor (random * (i + 1))\<close> and swaps the entries \<open>i\<close> and \<open>j\<close>.
\<close>

fun shuffle_loop :: "'a list \<Rightarrow> nat \<Rightarrow> (nat \<Rightarrow> rat) \<Rightarrow> 'a list \<times> (nat \<Rightarrow> rat)" where
  "shuffle_loop vs 0 g = (vs, g)"
| "shuffle_loop vs (Suc n) g =
     (let i = Suc n;
          j = nat \<lfloor>g 0 * of_nat (i + 1)\<rfloor>
      in shuffle_loop (vs[i := vs ! j, j := vs ! i]) n (\<lambda>k. g (Suc k)))"

definition shuffle :: "'a list \<Rightarrow> (nat \<Rightarrow> rat) \<Rightarrow> 'a list \<times> (nat \<Rightarrow> rat)" where
  "shuffle vs g = shuffle_loop vs (length vs - 1) g"

lemma length_shuffle_loop: "length (fst (shuffle_loop vs n g)) = length vs"
  by (induction n arbitrary: vs g) (simp_all add: Let_def)

lemma length_shuffle: "length (fst (shuffle vs g)) = length vs"
  by (simp add: shuffle_def length_shuffle_loop)

function refillQueue_loop ::
  "PieceType list \<Rightarrow> (nat \<Rightarrow> rat) \<Rightarrow> PieceType list \<times> (nat \<Rightarrow> rat)" where
  "refillQueue_loop q g =
     (if length q < 7
      then refillQueue_loop (q @ fst (shuffle PIECE_TYPES g)) (snd (shuffle PIECE_TYPES g))
      else (q, g))"
  by pat_completeness auto
termination
  by (relation "measure (\<lambda>(q, g). 7 - length q)")
     (auto simp: length_shuffle PIECE_TYPES_def)

declare refillQueue_loop.simps [simp del]

definition refillQueue :: "TetrisGame \<Rightarrow> TetrisGame" where
  "refillQueue s =
     (let r = refillQueue_loop (queue s) (rng s)
      in s\<lparr>queue := fst r, rng := snd r\<rparr>)"

subsection \<open>Collision\<close>

definition getMatrix :: "Catalog \<Rightarrow> PieceType \<Rightarrow> nat \<Rightarrow> bool list list" where
  "getMatrix C t rot =
     (let states = TETROMINO_SHAPES C t;
          index = rot mod length states
      in states ! index)"

text \<open>
  The inner loop of \<open>collides\<close> over the cells of one matrix row, from column \<open>col\<close> on;
  \<open>True\<close> is the \<open>return true\<close> of the source.
\<close>

fun collides_cols :: "Board \<Rightarrow> bool list \<Rightarrow> int \<Rightarrow> int \<Rightarrow> int \<Rightarrow> bool" where
  "collides_cols b [] x boardY col = False"
| "collides_cols b (c # cs) x boardY col =
     (if \<not> c then collides_cols b cs x boardY (col + 1)
      else let boardX = x + col in
        if boardX < 0 \<or> boardX \<ge> COLS \<or> boardY \<ge> TOTAL_ROWS then True
        else if boardY \<ge> 0 \<and> b ! nat boardY ! nat boardX \<noteq> None then True
        else collides_cols b cs x boardY (col + 1))"

fun collides_rows :: "Board \<Rightarrow> bool list list \<Rightarrow> int \<Rightarrow> int \<Rightarrow> int \<Rightarrow> bool" where
  "collides_rows b [] x y row = False"
| "collides_rows b (r # rs) x y row =
     (if collides_cols b r x (y + row) 0 then True
      else collides_rows b rs x y (row + 1))"

definition collides :: "Catalog \<Rightarrow> Board \<Rightarrow> PieceType \<Rightarrow> int \<Rightarrow> int \<Rightarrow> nat \<Rightarrow> bool" where
  "collides C b t x y rot = collides_rows b (getMatrix C t rot) x y 0"

definition checkGrounded :: "Catalog \<Rightarrow> TetrisGame \<Rightarrow> bool" where
  "checkGrounded C s =
     (case active s of
        None \<Rightarrow> False
      | Some a \<Rightarrow> collides C (board s) (ptype a) (px a) (py a + 1) (rotation a))"

definition createPiece :: "PieceType \<Rightarrow> ActivePiece" where
  "createPiece t =
     \<lparr>ptype = t, rotation = 0, px = fst (SPAWN_POSITIONS t), py = snd (SPAWN_POSITIONS t)\<rparr>"

definition endGame :: "TetrisGame \<Rightarrow> TetrisGame" where
  "endGame s = s\<lparr>state := over, active := None, softDropActive := False\<rparr>"

subsection \<open>Spawning\<close>

definition spawnNextPiece :: "Catalog \<Rightarrow> TetrisGame \<Rightarrow> TetrisGame" where
  "spawnNextPiece C s =
     (let s1 = refillQueue s in
      case queue s1 of
        [] \<Rightarrow> s1
      | nextType # rest \<Rightarrow>
          let s2 = s1\<lparr>queue := rest, active := Some (createPiece nextType), canHold := True\<rparr>;
              s3 = s2\<lparr>grounded := checkGrounded C s2, lockTimer := 0,
                      softDropActive := False, gravityTimer := 0\<rparr>
          in if collides C (board s3) nextType (px (createPiece nextType))
                  (py (createPiece nextType)) (rotation (createPiece nextType))
             then endGame s3 else s3)"

subsection \<open>Line clearing and scoring\<close>

text \<open>
  \<open>clearLines\<close>: \<open>row\<close> runs from \<open>TOTAL_ROWS - 1\<close> down to 0. A full row is spliced out and
  an empty row is put in front; the \<open>row += 1\<close> of the source cancels the \<open>row -= 1\<close> of
  the loop header, so the same index is looked at again.
\<close>

definition rowFull :: "BoardCell list \<Rightarrow> bool" where
  "rowFull r = list_all (\<lambda>cell. cell \<noteq> None) r"

function clearLines_loop :: "Board \<Rightarrow> int \<Rightarrow> nat \<Rightarrow> Board \<times> nat" where
  "clearLines_loop b row cleared =
     (if row \<ge> 0 then
        (if rowFull (b ! nat row)
         then clearLines_loop (emptyRow # (take (nat row) b @ drop (Suc (nat row)) b))
                row (cleared + 1)
         else clearLines_loop b (row - 1) cleared)
      else (b, cleared))"
  by pat_completeness auto

lemma not_rowFull_emptyRow: "\<not> rowFull emptyRow"
  by (simp add: rowFull_def emptyRow_def list_all_iff)

termination clearLines_loop
proof (relation "measure (\<lambda>(b, row, cleared).
         length (filter rowFull (take (nat (row + 1)) b)) + (nat (row + 1) - length b)
         + nat (row + 1))",
       goal_cases)
  case 1
  show ?case by simp
next
  case (2 b row cleared)
  define n where "n = nat row"
  have n: "nat (row + 1) = Suc n" using 2 by (simp add: n_def nat_add_distrib)
  show ?case
  proof (cases "n < length b")
    case True
    have "take (Suc n) b = take n b @ [b ! n]" using True by (simp add: take_Suc_conv_app_nth)
    with 2 True show ?thesis
      by (simp add: n n_def[symmetric] not_rowFull_emptyRow min_def)
  next
    case False
    with 2 show ?thesis
      by (simp add: n n_def[symmetric] not_rowFull_emptyRow)
  qed
next
  case (3 b row cleared)
  define n where "n = nat row"
  have n: "nat (row + 1) = Suc n" "nat row = n" using 3 by (simp_all add: n_def nat_add_distrib)
  have "length (filter rowFull (take n b)) \<le> length (filter rowFull (take (Suc n) b))"
    by (cases "n < length b") (simp_all add: take_Suc_conv_app_nth)
  with 3 show ?case
    by (simp add: n)
qed

declare clearLines_loop.simps [simp del]

definition clearLines :: "Board \<Rightarrow> Board \<times> nat" where
  "clearLines b = clearLines_loop b (TOTAL_ROWS - 1) 0"

text \<open>
  \<open>computeGravityInterval\<close>, each operation rounded to a double. \<open>levelIndex\<close> is an
  integer; \<open>Math.pow\<close> on it is the power, rounded.
\<close>

definition computeGravityInterval :: "TetrisGame \<Rightarrow> rat" where
  "computeGravityInterval s =
     (let levelIndex = max 0 (level s - 1);
          speed = max (roundDouble (1 / 10))
                    (subDouble (roundDouble (8 / 10))
                       (mulDouble (of_int levelIndex) (roundDouble (7 / 1000))))
      in max 50 (mulDouble (roundDouble (speed ^ nat levelIndex)) 1000))"

text \<open>
  \<open>LINE_SCORES[linesCleared] ?? 0\<close>: an index past the end of the table reads
  \<open>undefined\<close>, which \<open>??\<close> turns into 0. \<open>Math.floor(lineScore * 1.5)\<close> on the integer
  \<open>lineScore\<close> is \<open>lineScore * 3 div 2\<close>.
\<close>

definition handleLineScoring :: "nat \<Rightarrow> TetrisGame \<Rightarrow> TetrisGame" where
  "handleLineScoring linesCleared s =
     (let s1 =
        (if linesCleared > 0 then
           (let levelMultiplier = level s;
                baseScore = (if linesCleared < length LINE_SCORES
                             then LINE_SCORES ! linesCleared else 0);
                isTetris = (linesCleared = 4);
                lineScore = (if isTetris \<and> backToBack s > 0
                             then (baseScore * levelMultiplier * 3) div 2
                             else baseScore * levelMultiplier);
                combo' = (if combo s \<ge> 0 then combo s + 1 else 0);
                bonus = (if combo' > 0 then 50 * combo' * levelMultiplier else 0)
            in s\<lparr>lines := lines s + int linesCleared,
                 score := score s + lineScore + bonus,
                 combo := combo',
                 backToBack := (if isTetris then backToBack s + 1 else 0)\<rparr>)
         else s\<lparr>combo := -1, backToBack := (if backToBack s > 0 then 0 else backToBack s)\<rparr>);
          s2 = s1\<lparr>level := lines s1 div 10 + 1\<rparr>
      in s2\<lparr>gravityInterval := computeGravityInterval s2\<rparr>)"

subsection \<open>Locking\<close>

text \<open>
  The two loops of \<open>lockPiece\<close> that stamp the piece into the board; the pair carries the
  board and the flag \<open>toppedOut\<close>.
\<close>

fun stamp_cols ::
  "Board \<times> bool \<Rightarrow> PieceType \<Rightarrow> bool list \<Rightarrow> int \<Rightarrow> int \<Rightarrow> int \<Rightarrow> Board \<times> bool" where
  "stamp_cols bt t [] x boardY col = bt"
| "stamp_cols bt t (c # cs) x boardY col =
     (if \<not> c then stamp_cols bt t cs x boardY (col + 1)
      else let boardX = x + col in
        if boardY < 0 then stamp_cols (fst bt, True) t cs x boardY (col + 1)
        else if boardY \<ge> TOTAL_ROWS \<or> boardX < 0 \<or> boardX \<ge> COLS
        then stamp_cols bt t cs x boardY (col + 1)
        else stamp_cols
               ((fst bt)[nat boardY := (fst bt ! nat boardY)[nat boardX := Some t]], snd bt)
               t cs x boardY (col + 1))"

fun stamp_rows ::
  "Board \<times> bool \<Rightarrow> PieceType \<Rightarrow> bool list list \<Rightarrow> int \<Rightarrow> int \<Rightarrow> int \<Rightarrow> Board \<times> bool" where
  "stamp_rows bt t [] x y row = bt"
| "stamp_rows bt t (r # rs) x y row =
     stamp_rows (stamp_cols bt t r x (y + row) 0) t rs x y (row + 1)"

definition lockPiece :: "Catalog \<Rightarrow> TetrisGame \<Rightarrow> TetrisGame" where
  "lockPiece C s =
     (case active s of
        None \<Rightarrow> s
      | Some a \<Rightarrow>
          let matrix = getMatrix C (ptype a) (rotation a);
              bt = stamp_rows (board s, False) (ptype a) matrix (px a) (py a) 0;
              s1 = s\<lparr>board := fst bt\<rparr>
          in if snd bt then endGame s1
             else
               let cl = clearLines (board s1);
                   s2 = handleLineScoring (snd cl) (s1\<lparr>board := fst cl\<rparr>);
                   s3 = s2\<lparr>active := None, grounded := False, lockTimer := 0,
                           softDropActive := False, gravityTimer := 0\<rparr>
               in if state s3 = playing then spawnNextPiece C s3 else s3)"

subsection \<open>Movement\<close>

definition tryMove :: "Catalog \<Rightarrow> int \<Rightarrow> int \<Rightarrow> TetrisGame \<Rightarrow> bool \<times> TetrisGame" where
  "tryMove C dx dy s =
     (case active s of
        None \<Rightarrow> (False, s)
      | Some a \<Rightarrow>
          let newX = px a + dx;
              newY = py a + dy
          in if collides C (board s) (ptype a) newX newY (rotation a)
             then (False, if dy > 0 then s\<lparr>grounded := True\<rparr> else s)
             else
               let s1 = s\<lparr>active := Some (a\<lparr>px := newX, py := newY\<rparr>), lockTimer := 0\<rparr>
               in (True, s1\<lparr>grounded := checkGrounded C s1\<rparr>))"

text \<open>
  The loop of \<open>getDropDistance\<close>. It leaves only at a collision, so for a matrix without
  an occupied cell it does not return.
\<close>

partial_function (option) getDropDistance_loop ::
  "Catalog \<Rightarrow> Board \<Rightarrow> ActivePiece \<Rightarrow> int \<Rightarrow> int option" where
  "getDropDistance_loop C b a distance =
     (if \<not> collides C b (ptype a) (px a) (py a + distance + 1) (rotation a)
      then getDropDistance_loop C b a (distance + 1)
      else Some distance)"

declare getDropDistance_loop.simps [code]

definition getDropDistance :: "Catalog \<Rightarrow> TetrisGame \<Rightarrow> int option" where
  "getDropDistance C s =
     (case active s of
        None \<Rightarrow> Some 0
      | Some a \<Rightarrow> getDropDistance_loop C (board s) a 0)"

subsection \<open>Commands\<close>

text \<open>
  The \<open>while\<close> loop of \<open>update\<close>; \<open>interval\<close> is computed once, before the loop. The body
  takes the interval from the timer first and then tries the step.
\<close>

partial_function (option) update_loop ::
  "Catalog \<Rightarrow> rat \<Rightarrow> TetrisGame \<Rightarrow> TetrisGame option" where
  "update_loop C interval s =
     (if gravityTimer s \<ge> interval \<and> active s \<noteq> None then
        (let s1 = s\<lparr>gravityTimer := subDouble (gravityTimer s) interval\<rparr>;
             r = tryMove C 0 1 s1
         in if fst r
            then update_loop C interval
                   (if softDropActive (snd r) then (snd r)\<lparr>score := score (snd r) + 1\<rparr>
                    else snd r)
            else Some ((snd r)\<lparr>grounded := True\<rparr>))
      else Some s)"

declare update_loop.simps [code]

definition update :: "Catalog \<Rightarrow> rat \<Rightarrow> TetrisGame \<Rightarrow> TetrisGame option" where
  "update C delta s =
     (if state s \<noteq> playing \<or> active s = None then Some s
      else
        let interval = (if softDropActive s then SOFT_DROP_INTERVAL else gravityInterval s);
            s1 = s\<lparr>gravityTimer := addDouble (gravityTimer s) delta\<rparr>
        in case update_loop C interval s1 of
             None \<Rightarrow> None
           | Some s2 \<Rightarrow>
               Some (if grounded s2 \<and> active s2 \<noteq> None then
                       (let s3 = s2\<lparr>lockTimer := addDouble (lockTimer s2) delta\<rparr>
                        in if lockTimer s3 \<ge> LOCK_DELAY_MS then lockPiece C s3 else s3)
                     else s2))"

definition move :: "Catalog \<Rightarrow> int \<Rightarrow> TetrisGame \<Rightarrow> TetrisGame" where
  "move C direction s =
     (if state s \<noteq> playing then s
      else
        let r = tryMove C direction 0 s
        in if fst r then (snd r)\<lparr>grounded := checkGrounded C (snd r)\<rparr> else snd r)"

text \<open>The \<open>for\<close> loop of \<open>rotate\<close> over the kick offsets.\<close>

fun rotate_kicks ::
  "Catalog \<Rightarrow> TetrisGame \<Rightarrow> ActivePiece \<Rightarrow> nat \<Rightarrow> (int \<times> int) list \<Rightarrow> TetrisGame" where
  "rotate_kicks C s a toRotation [] = s"
| "rotate_kicks C s a toRotation ((offsetX, offsetY) # kicks) =
     (let newX = px a + offsetX;
          newY = py a + offsetY
      in if \<not> collides C (board s) (ptype a) newX newY toRotation
         then
           (let s1 = s\<lparr>active := Some (a\<lparr>rotation := toRotation, px := newX, py := newY\<rparr>)\<rparr>
            in s1\<lparr>grounded := checkGrounded C s1, lockTimer := 0\<rparr>)
         else rotate_kicks C s a toRotation kicks)"

definition rotate :: "Catalog \<Rightarrow> bool \<Rightarrow> TetrisGame \<Rightarrow> TetrisGame" where
  "rotate C clockwise s =
     (if state s \<noteq> playing then s
      else case active s of
        None \<Rightarrow> s
      | Some a \<Rightarrow>
          let dir = (if clockwise then 1 else - 1 :: int);
              fromRotation = ((rotation a mod 4) + 4) mod 4;
              toRotation = nat ((int fromRotation + dir + 4) mod 4);
              kicks = getKickData C (ptype a) fromRotation toRotation
          in rotate_kicks C s a toRotation kicks)"

definition hardDrop :: "Catalog \<Rightarrow> TetrisGame \<Rightarrow> TetrisGame option" where
  "hardDrop C s =
     (if state s \<noteq> playing then Some s
      else case active s of
        None \<Rightarrow> Some s
      | Some a \<Rightarrow>
          (case getDropDistance C s of
             None \<Rightarrow> None
           | Some distance \<Rightarrow>
               if distance \<le> 0 then Some s
               else Some (lockPiece C
                      (s\<lparr>active := Some (a\<lparr>py := py a + distance\<rparr>),
                         score := score s + distance * 2\<rparr>))))"

definition tapSoftDrop :: "Catalog \<Rightarrow> TetrisGame \<Rightarrow> TetrisGame" where
  "tapSoftDrop C s =
     (if state s \<noteq> playing then s
      else
        let r = tryMove C 0 1 s
        in if fst r then (snd r)\<lparr>score := score (snd r) + 1\<rparr>
           else (snd r)\<lparr>grounded := True\<rparr>)"

definition setSoftDrop :: "bool \<Rightarrow> TetrisGame \<Rightarrow> TetrisGame" where
  "setSoftDrop act s =
     (if softDropActive s = act then s
      else
        let s1 = s\<lparr>softDropActive := act\<rparr>
        in if act then s1\<lparr>gravityTimer := 0\<rparr> else s1)"

definition hold :: "Catalog \<Rightarrow> TetrisGame \<Rightarrow> TetrisGame" where
  "hold C s =
     (if state s \<noteq> playing then s
      else case active s of
        None \<Rightarrow> s
      | Some a \<Rightarrow>
          if \<not> canHold s then s
          else
            let currentType = ptype a;
                swappedType = holdPiece s;
                s1 = s\<lparr>holdPiece := Some currentType, canHold := False\<rparr>
            in case swappedType of
                 Some t \<Rightarrow>
                   let s2 = s1\<lparr>active := Some (createPiece t)\<rparr>
                   in if collides C (board s2) t (px (createPiece t)) (py (createPiece t))
                           (rotation (createPiece t))
                      then endGame s2
                      else s2\<lparr>grounded := checkGrounded C s2, lockTimer := 0,
                              softDropActive := False, gravityTimer := 0\<rparr>
               | None \<Rightarrow> spawnNextPiece C (s1\<lparr>active := None\<rparr>))"

definition togglePause :: "TetrisGame \<Rightarrow> TetrisGame" where
  "togglePause s =
     (if state s = playing then s\<lparr>state := paused, softDropActive := False\<rparr>
      else if state s = paused then s\<lparr>state := playing\<rparr>
      else s)"

definition reset :: "Catalog \<Rightarrow> TetrisGame \<Rightarrow> TetrisGame" where
  "reset C s =
     spawnNextPiece C
       (refillQueue
          (s\<lparr>board := createBoard, queue := [], active := None, holdPiece := None,
             canHold := True, gravityTimer := 0, gravityInterval := 1000, lockTimer := 0,
             grounded := False, softDropActive := False, state := playing, score := 0,
             level := 1, lines := 0, combo := -1, backToBack := 0\<rparr>))"

text \<open>The commands of the external interface, and the engine running one of them.\<close>

datatype Command =
    Reset
  | Update rat
  | Move int
  | Rotate bool
  | HardDrop
  | TapSoftDrop
  | SetSoftDrop bool
  | Hold
  | TogglePause

fun exec :: "Catalog \<Rightarrow> Command \<Rightarrow> TetrisGame \<Rightarrow> TetrisGame option" where
  "exec C Reset s = Some (reset C s)"
| "exec C (Update delta) s = update C delta s"
| "exec C (Move direction) s = Some (move C direction s)"
| "exec C (Rotate clockwise) s = Some (rotate C clockwise s)"
| "exec C HardDrop s = hardDrop C s"
| "exec C TapSoftDrop s = Some (tapSoftDrop C s)"
| "exec C (SetSoftDrop act) s = Some (setSoftDrop act s)"
| "exec C Hold s = Some (hold C s)"
| "exec C TogglePause s = Some (togglePause s)"

text \<open>
  The constructor: the field initialisers, then \<open>reset()\<close>. \<open>g\<close> is the stream of the
  random numbers to come.
\<close>

definition fieldInitialisers :: "(nat \<Rightarrow> rat) \<Rightarrow> TetrisGame" where
  "fieldInitialisers g =
     \<lparr>board = createBoard, queue = [], active = None, holdPiece = None, canHold = True,
      gravityTimer = 0, gravityInterval = 1000, lockTimer = 0, grounded = False,
      softDropActive = False, state = playing, score = 0, level = 1, lines = 0,
      combo = -1, backToBack = 0, rng = g\<rparr>"

definition newGame :: "Catalog \<Rightarrow> (nat \<Rightarrow> rat) \<Rightarrow> TetrisGame" where
  "newGame C g = reset C (fieldInitialisers g)"

subsection \<open>The engine over time\<close>

text \<open>
  The engine states that exist: the one the constructor builds, for any stream of random
  numbers, and every state that a command returns from one of them.
\<close>

inductive reachable :: "Catalog \<Rightarrow> TetrisGame \<Rightarrow> bool" for C :: Catalog where
  constructed: "reachable C (newGame C g)"
| command: "reachable C s \<Longrightarrow> exec C c s = Some s' \<Longrightarrow> reachable C s'"

text \<open>A list of commands, run one after the other.\<close>

fun run :: "Catalog \<Rightarrow> Command list \<Rightarrow> TetrisGame \<Rightarrow> TetrisGame option" where
  "run C [] s = Some s"
| "run C (c # cs) s = (case exec C c s of None \<Rightarrow> None | Some s' \<Rightarrow> run C cs s')"

section \<open>Notions of the statements\<close>

text \<open>
  What \<open>collides\<close> tests at one absolute cell: the column is outside \<open>[0, COLS)\<close>, or the
  row is at least \<open>TOTAL_ROWS\<close>, or the row is not negative and the board cell is taken.
\<close>

definition cellBlocked :: "Board \<Rightarrow> int \<Rightarrow> int \<Rightarrow> bool" where
  "cellBlocked b boardX boardY \<longleftrightarrow>
     boardX < 0 \<or> boardX \<ge> COLS \<or> boardY \<ge> TOTAL_ROWS \<or>
     (boardY \<ge> 0 \<and> b ! nat boardY ! nat boardX \<noteq> None)"

text \<open>\<open>Math.random()\<close> returns a number in \<open>[0, 1)\<close>.\<close>

definition unitRng :: "(nat \<Rightarrow> rat) \<Rightarrow> bool" where
  "unitRng g \<longleftrightarrow> (\<forall>k. 0 \<le> g k \<and> g k < 1)"

text \<open>
  The piece types that \<open>n\<close> calls of \<open>spawnNextPiece\<close> in a row take from the queue:
  each call runs \<open>refillQueue\<close> and then \<open>queue.shift()\<close>; nothing else writes the queue
  or draws random numbers.
\<close>

fun dequeued :: "nat \<Rightarrow> PieceType list \<Rightarrow> (nat \<Rightarrow> rat) \<Rightarrow> PieceType list" where
  "dequeued 0 q g = []"
| "dequeued (Suc n) q g =
     (let r = refillQueue_loop q g
      in case fst r of
           [] \<Rightarrow> []
         | nextType # rest \<Rightarrow> nextType # dequeued n rest (snd r))"

text \<open>
  What a command keeps when it neither locks a piece nor resets: the phase, the level,
  the line count, the board, the gravity interval and the combo counter stay, an active
  piece stays, and the score does not go down.
\<close>

definition keepsGame :: "TetrisGame \<Rightarrow> TetrisGame \<Rightarrow> bool" where
  "keepsGame s s' \<longleftrightarrow>
     state s' = state s \<and> level s' = level s \<and> lines s' = lines s \<and>
     board s' = board s \<and> gravityInterval s' = gravityInterval s \<and> combo s' = combo s \<and>
     (active s' = None \<longleftrightarrow> active s = None) \<and> score s \<le> score s'"

text \<open>
  The shape of the board: \<open>TOTAL_ROWS\<close> rows of \<open>COLS\<close> cells. On a board of this shape
  every read \<open>board[boardY][boardX]\<close> of \<open>collides\<close>, every write of \<open>lockPiece\<close> and every
  row read of \<open>clearLines\<close> is in range.
\<close>

definition boardShape :: "Board \<Rightarrow> bool" where
  "boardShape b \<longleftrightarrow> length b = nat TOTAL_ROWS \<and> (\<forall>r \<in> set b. length r = nat COLS)"

text \<open>The facts about a state that the commands maintain.\<close>

definition engineInv :: "TetrisGame \<Rightarrow> bool" where
  "engineInv s \<longleftrightarrow>
     (active s = None \<longleftrightarrow> state s = over) \<and> 0 \<le> lines s \<and> 1 \<le> level s \<and>
     0 < gravityInterval s \<and> - 1 \<le> combo s"

text \<open>A matrix with at least one occupied cell.\<close>

definition hasCell :: "bool list list \<Rightarrow> bool" where
  "hasCell m \<longleftrightarrow> (\<exists>row<length m. \<exists>col<length (m ! row). m ! row ! col)"

text \<open>
  The gravity timer after \<open>j\<close> passes of the gravity loop: each pass takes the interval
  from the timer by a double subtraction.
\<close>

fun timerAfter :: "rat \<Rightarrow> rat \<Rightarrow> nat \<Rightarrow> rat" where
  "timerAfter interval t 0 = t"
| "timerAfter interval t (Suc j) = timerAfter interval (subDouble t interval) j"

text \<open>
  The state that the gravity loop of \<open>update\<close> leaves after \<open>k\<close> steps down from the state
  \<open>s\<close> with the active piece \<open>a\<close>, followed, when \<open>failed\<close> holds, by one attempt that
  collides. Every attempt takes \<open>interval\<close> from the gravity timer, the colliding one too;
  a step scores one point under soft drop and clears the lock timer.
\<close>

definition afterGravity ::
  "Catalog \<Rightarrow> rat \<Rightarrow> nat \<Rightarrow> bool \<Rightarrow> TetrisGame \<Rightarrow> ActivePiece \<Rightarrow> TetrisGame" where
  "afterGravity C interval k failed s a =
     s\<lparr>active := Some (a\<lparr>py := py a + int k\<rparr>),
       gravityTimer := timerAfter interval (gravityTimer s) (k + (if failed then 1 else 0)),
       score := score s + (if softDropActive s then int k else 0),
       lockTimer := (if k > 0 then 0 else lockTimer s),
       grounded :=
         (if failed then True
          else if k > 0
          then collides C (board s) (ptype a) (px a) (py a + int k + 1) (rotation a)
          else grounded s)\<rparr>"

section \<open>Concrete inputs\<close>

text \<open>
  The theorems below hold for every catalog. Where one is run on a concrete input, it is
  run on this catalog: the usual matrices of the seven tetrominoes in their four rotation
  states (\<open>X\<close> marks an occupied cell), and a short list of kick offsets that starts with
  the identity offset.
\<close>

definition cells :: "string \<Rightarrow> bool list" where
  "cells str = map (\<lambda>c. c = CHR ''X'') str"

fun sampleShapes :: "PieceType \<Rightarrow> bool list list list" where
  "sampleShapes PcI =
     [map cells [''....'', ''XXXX'', ''....'', ''....''],
      map cells [''..X.'', ''..X.'', ''..X.'', ''..X.''],
      map cells [''....'', ''....'', ''XXXX'', ''....''],
      map cells [''.X..'', ''.X..'', ''.X..'', ''.X..'']]"
| "sampleShapes PcO =
     [map cells [''.XX.'', ''.XX.'', ''....''],
      map cells [''.XX.'', ''.XX.'', ''....''],
      map cells [''.XX.'', ''.XX.'', ''....''],
      map cells [''.XX.'', ''.XX.'', ''....'']]"
| "sampleShapes PcT =
     [map cells [''.X.'', ''XXX'', ''...''],
      map cells [''.X.'', ''.XX'', ''.X.''],
      map cells [''...'', ''XXX'', ''.X.''],
      map cells [''.X.'', ''XX.'', ''.X.'']]"
| "sampleShapes PcS =
     [map cells [''.XX'', ''XX.'', ''...''],
      map cells [''.X.'', ''.XX'', ''..X''],
      map cells [''...'', ''.XX'', ''XX.''],
      map cells [''X..'', ''XX.'', ''.X.'']]"
| "sampleShapes PcZ =
     [map cells [''XX.'', ''.XX'', ''...''],
      map cells [''..X'', ''.XX'', ''.X.''],
      map cells [''...'', ''XX.'', ''.XX''],
      map cells [''.X.'', ''XX.'', ''X..'']]"
| "sampleShapes PcJ =
     [map cells [''X..'', ''XXX'', ''...''],
      map cells [''.XX'', ''.X.'', ''.X.''],
      map cells [''...'', ''XXX'', ''..X''],
      map cells [''.X.'', ''.X.'', ''XX.'']]"
| "sampleShapes PcL =
     [map cells [''..X'', ''XXX'', ''...''],
      map cells [''.X.'', ''.X.'', ''.XX''],
      map cells [''...'', ''XXX'', ''X..''],
      map cells [''XX.'', ''.X.'', ''.X.'']]"

definition sampleCatalog :: Catalog where
  "sampleCatalog =
     \<lparr>TETROMINO_SHAPES = sampleShapes,
      getKickData = (\<lambda>t fromRotation toRotation. [(0, 0), (- 1, 0), (1, 0)])\<rparr>"

text \<open>The random stream that always returns 0.\<close>

definition zeroRng :: "nat \<Rightarrow> rat" where
  "zeroRng = (\<lambda>n. 0)"

text \<open>A row without an empty cell, and a board of such rows.\<close>

definition fullRowOf :: "PieceType \<Rightarrow> BoardCell list" where
  "fullRowOf t = replicate (nat COLS) (Some t)"

definition fullBoard :: Board where
  "fullBoard = replicate (nat TOTAL_ROWS) (fullRowOf PcI)"

text \<open>A stack with two full rows that are not adjacent.\<close>

definition sampleStack :: Board where
  "sampleStack =
     replicate 18 emptyRow @
     [fullRowOf PcI, emptyRow[0 := Some PcT], fullRowOf PcJ, emptyRow[3 := Some PcO]]"

text \<open>The fields as the class initialises them, for the scoring examples.\<close>

definition scoringStart :: TetrisGame where
  "scoringStart = fieldInitialisers zeroRng"

text \<open>
  A finished game: eleven hard drops stack the pieces up to the top, and the twelfth piece
  locks above the board after the lock delay.
\<close>

definition gameOverCommands :: "Command list" where
  "gameOverCommands = replicate 11 HardDrop @ [Update 500]"

definition gameOverState :: TetrisGame where
  "gameOverState = the (run sampleCatalog gameOverCommands (newGame sampleCatalog zeroRng))"

text \<open>A game in which one soft-drop tap has scored a point.\<close>

definition tappedState :: TetrisGame where
  "tappedState = tapSoftDrop sampleCatalog (newGame sampleCatalog zeroRng)"

text \<open>
  A piece that rests on the floor under soft drop: 21 taps take the O piece of a new game
  to the bottom, then the soft-drop key is held.
\<close>

definition restingState :: TetrisGame where
  "restingState =
     the (run sampleCatalog (replicate 21 TapSoftDrop @ [SetSoftDrop True])
            (newGame sampleCatalog zeroRng))"

text \<open>
  An overhang: the O piece and then the T piece are dropped in the middle, so that the
  left arm of the T (column 3, row 19) hangs over two free cells; the S piece that
  follows is moved two columns to the left.
\<close>

definition overhangCommands :: "Command list" where
  "overhangCommands = [HardDrop, HardDrop, Move (- 1), Move (- 1)]"

definition overhangState :: TetrisGame where
  "overhangState = the (run sampleCatalog overhangCommands (newGame sampleCatalog zeroRng))"

section \<open>Verification\<close>

subsection \<open>Collision test\<close>

lemma collides_cols_iff:
  "collides_cols b cs x boardY col \<longleftrightarrow>
     (\<exists>k<length cs. cs ! k \<and> cellBlocked b (x + col + int k) boardY)"
proof (induction cs arbitrary: col)
  case Nil
  show ?case by simp
next
  case (Cons c cs)
  show ?case
  proof -
    have step: "collides_cols b (c # cs) x boardY col \<longleftrightarrow>
        (c \<and> cellBlocked b (x + col) boardY) \<or> collides_cols b cs x boardY (col + 1)"
      by (auto simp: cellBlocked_def Let_def)
    show ?thesis
      unfolding step Cons.IH by (auto simp: Ex_less_Suc2 add.assoc)
  qed
qed

lemma collides_rows_iff:
  "collides_rows b m x y row \<longleftrightarrow>
     (\<exists>r<length m. \<exists>k<length (m ! r). m ! r ! k \<and> cellBlocked b (x + int k) (y + row + int r))"
proof (induction m arbitrary: row)
  case Nil
  show ?case by simp
next
  case (Cons r m)
  show ?case
    by (auto simp: Cons.IH collides_cols_iff Ex_less_Suc2 add.assoc)
qed

lemma collides_cells:
  "collides C b t x y rot \<longleftrightarrow>
     (\<exists>row<length (getMatrix C t rot). \<exists>col<length (getMatrix C t rot ! row).
        getMatrix C t rot ! row ! col \<and> cellBlocked b (x + int col) (y + int row))"
  by (simp add: collides_def collides_rows_iff)

lemma collides_occupied:
  "(collides C b t x y rot \<longleftrightarrow>
      (\<exists>row col. row < length (getMatrix C t rot) \<and> col < length (getMatrix C t rot ! row) \<and>
         getMatrix C t rot ! row ! col \<and>
         (x + int col < 0 \<or> x + int col \<ge> COLS \<or> y + int row \<ge> TOTAL_ROWS \<or>
          (y + int row \<ge> 0 \<and> b ! nat (y + int row) ! nat (x + int col) \<noteq> None))))
   \<and> ((\<forall>row col. row < length (getMatrix C t rot) \<and> col < length (getMatrix C t rot ! row) \<and>
          getMatrix C t rot ! row ! col \<longrightarrow>
          0 \<le> x + int col \<and> x + int col < COLS \<and> y + int row < 0)
        \<longrightarrow> \<not> collides C b t x y rot)"
proof (intro conjI impI notI)
  show "collides C b t x y rot \<longleftrightarrow>
      (\<exists>row col. row < length (getMatrix C t rot) \<and> col < length (getMatrix C t rot ! row) \<and>
         getMatrix C t rot ! row ! col \<and>
         (x + int col < 0 \<or> x + int col \<ge> COLS \<or> y + int row \<ge> TOTAL_ROWS \<or>
          (y + int row \<ge> 0 \<and> b ! nat (y + int row) ! nat (x + int col) \<noteq> None)))"
    unfolding collides_cells cellBlocked_def by blast
next
  assume above: "\<forall>row col. row < length (getMatrix C t rot) \<and>
      col < length (getMatrix C t rot ! row) \<and> getMatrix C t rot ! row ! col \<longrightarrow>
      0 \<le> x + int col \<and> x + int col < COLS \<and> y + int row < 0"
    and hit: "collides C b t x y rot"
  from hit obtain row col where rc: "row < length (getMatrix C t rot)"
      "col < length (getMatrix C t rot ! row)" "getMatrix C t rot ! row ! col"
      "cellBlocked b (x + int col) (y + int row)"
    unfolding collides_cells by blast
  from above rc(1-3) have "0 \<le> x + int col \<and> x + int col < COLS \<and> y + int row < 0"
    by blast
  with rc(4) show False
    by (simp add: cellBlocked_def)
qed

lemma getMatrix_table:
  "getMatrix C t rot = TETROMINO_SHAPES C t ! (rot mod length (TETROMINO_SHAPES C t))"
  by (simp add: getMatrix_def Let_def)

text \<open>
  Claim C1. For every board, piece type, rotation state and anchor position, \<open>collides\<close>
  returns true if and only if some occupied cell of the matrix that the shape table holds
  for the rotation state (the entry at index \<open>rot mod n\<close> of the \<open>n\<close> states of the piece
  type) lies at an absolute column outside \<open>[0, COLS)\<close>, or at a row \<open>\<ge> TOTAL_ROWS\<close>, or at
  a row \<open>\<ge> 0\<close> whose board cell is occupied. A piece whose occupied cells all lie inside the
  columns and at negative rows does not collide.
\<close>

theorem collides_iff:
  "(let m = TETROMINO_SHAPES C t ! (rot mod length (TETROMINO_SHAPES C t)) in
    (collides C b t x y rot \<longleftrightarrow>
      (\<exists>row col. row < length m \<and> col < length (m ! row) \<and> m ! row ! col \<and>
         (x + int col < 0 \<or> x + int col \<ge> COLS \<or> y + int row \<ge> TOTAL_ROWS \<or>
          (y + int row \<ge> 0 \<and> b ! nat (y + int row) ! nat (x + int col) \<noteq> None))))
    \<and> ((\<forall>row col. row < length m \<and> col < length (m ! row) \<and> m ! row ! col \<longrightarrow>
          0 \<le> x + int col \<and> x + int col < COLS \<and> y + int row < 0)
        \<longrightarrow> \<not> collides C b t x y rot))"
  unfolding Let_def getMatrix_table [symmetric] by (rule collides_occupied)

theorem collides_iff_witness:
  "collides sampleCatalog createBoard PcO 8 0 0 \<and>
   (\<exists>row col. row < length (sampleShapes PcO ! 0) \<and>
       col < length (sampleShapes PcO ! 0 ! row) \<and>
       sampleShapes PcO ! 0 ! row ! col \<and>
       (8 + int col < 0 \<or> 8 + int col \<ge> COLS \<or> 0 + int row \<ge> TOTAL_ROWS \<or>
          (0 + int row \<ge> 0 \<and> createBoard ! nat (0 + int row) ! nat (8 + int col) \<noteq> None))) \<and>
   collides sampleCatalog fullBoard PcO 3 (- 1) 0 \<and>
   \<not> collides sampleCatalog fullBoard PcO 3 (- 2) 0 \<and>
   \<not> collides sampleCatalog createBoard PcI 3 19 0 \<and>
   collides sampleCatalog createBoard PcI 3 19 1 \<and>
   collides sampleCatalog createBoard PcI 3 19 5 \<and>
   (\<exists>row col. row < length (sampleShapes PcI ! 1) \<and>
       col < length (sampleShapes PcI ! 1 ! row) \<and>
       sampleShapes PcI ! 1 ! row ! col \<and>
       (3 + int col < 0 \<or> 3 + int col \<ge> COLS \<or> 19 + int row \<ge> TOTAL_ROWS \<or>
          (19 + int row \<ge> 0 \<and> createBoard ! nat (19 + int row) ! nat (3 + int col) \<noteq> None)))"
proof -
  have tO: "TETROMINO_SHAPES sampleCatalog PcO ! (0 mod length (TETROMINO_SHAPES sampleCatalog PcO))
      = sampleShapes PcO ! 0"
    by (simp add: sampleCatalog_def)
  have tI: "TETROMINO_SHAPES sampleCatalog PcI ! (5 mod length (TETROMINO_SHAPES sampleCatalog PcI))
      = sampleShapes PcI ! 1"
    by (simp add: sampleCatalog_def)
  have m: "sampleShapes PcO ! 0 = [[False, True, True, False], [False, True, True, False],
      [False, False, False, False]]"
    by code_simp
  have c: "collides sampleCatalog createBoard PcO 8 0 0"
    by code_simp
  have c': "collides sampleCatalog fullBoard PcO 3 (- 1) 0"
    by code_simp
  have i0: "\<not> collides sampleCatalog createBoard PcI 3 19 0"
    by code_simp
  have i1: "collides sampleCatalog createBoard PcI 3 19 1"
    by code_simp
  have i5: "collides sampleCatalog createBoard PcI 3 19 5"
    by code_simp
  have above: "\<forall>row col. row < length (sampleShapes PcO ! 0) \<and>
      col < length (sampleShapes PcO ! 0 ! row) \<and> sampleShapes PcO ! 0 ! row ! col \<longrightarrow>
      0 \<le> 3 + int col \<and> 3 + int col < COLS \<and> - 2 + int row < 0"
    unfolding m by (auto simp: nth_Cons' less_Suc_eq split: if_splits)
  from collides_iff [of sampleCatalog PcO 0 fullBoard 3 "- 2", unfolded Let_def tO] above
  have "\<not> collides sampleCatalog fullBoard PcO 3 (- 2) 0"
    by blast
  moreover from collides_iff [of sampleCatalog PcO 0 createBoard 8 0, unfolded Let_def tO] c
  have "\<exists>row col. row < length (sampleShapes PcO ! 0) \<and>
       col < length (sampleShapes PcO ! 0 ! row) \<and> sampleShapes PcO ! 0 ! row ! col \<and>
       (8 + int col < 0 \<or> 8 + int col \<ge> COLS \<or> 0 + int row \<ge> TOTAL_ROWS \<or>
          (0 + int row \<ge> 0 \<and> createBoard ! nat (0 + int row) ! nat (8 + int col) \<noteq> None))"
    by blast
  moreover from collides_iff [of sampleCatalog PcI 5 createBoard 3 19, unfolded Let_def tI] i5
  have "\<exists>row col. row < length (sampleShapes PcI ! 1) \<and>
       col < length (sampleShapes PcI ! 1 ! row) \<and> sampleShapes PcI ! 1 ! row ! col \<and>
       (3 + int col < 0 \<or> 3 + int col \<ge> COLS \<or> 19 + int row \<ge> TOTAL_ROWS \<or>
          (19 + int row \<ge> 0 \<and> createBoard ! nat (19 + int row) ! nat (3 + int col) \<noteq> None))"
    by blast
  ultimately show ?thesis using c c' i0 i1 i5 by blast
qed

subsection \<open>Line clearing\<close>

text \<open>
  The loop at index \<open>row\<close> has the rows below \<open>row\<close> behind it: it removes the full rows
  among the first \<open>row + 1\<close> rows and leaves the rest in place.
\<close>

lemma clearLines_loop_spec:
  "nat (row + 1) \<le> length b \<Longrightarrow>
   clearLines_loop b row cleared =
     (replicate (length (filter rowFull (take (nat (row + 1)) b))) emptyRow
        @ filter (\<lambda>r. \<not> rowFull r) (take (nat (row + 1)) b) @ drop (nat (row + 1)) b,
      cleared + length (filter rowFull (take (nat (row + 1)) b)))"
proof (induction b row cleared rule: clearLines_loop.induct)
  case (1 b row cleared)
  show ?case
  proof (cases "row \<ge> 0")
    case False
    then show ?thesis by (subst clearLines_loop.simps) simp
  next
    case True
    define m where "m = nat row"
    have n: "nat (row + 1) = Suc m" "nat row = m" "nat (row - 1 + 1) = m"
      using True by (simp_all add: m_def nat_add_distrib)
    have m: "m < length b" using "1.prems" n by simp
    have tk: "take (Suc m) b = take m b @ [b ! m]"
      using m by (simp add: take_Suc_conv_app_nth)
    show ?thesis
    proof (cases "rowFull (b ! m)")
      case full: True
      let ?b' = "emptyRow # (take m b @ drop (Suc m) b)"
      have len: "nat (row + 1) \<le> length ?b'" using m n by simp
      have full': "rowFull (b ! nat row)" using full n by simp
      have len': "nat (row + 1) \<le> length (emptyRow # (take (nat row) b @ drop (Suc (nat row)) b))"
        using len n by simp
      have IH: "clearLines_loop ?b' row (cleared + 1) =
        (replicate (length (filter rowFull (take (Suc m) ?b'))) emptyRow
          @ filter (\<lambda>r. \<not> rowFull r) (take (Suc m) ?b') @ drop (Suc m) ?b',
         cleared + 1 + length (filter rowFull (take (Suc m) ?b')))"
        using "1.IH"(1) [OF True full' len'] unfolding n .
      have t': "take (Suc m) ?b' = emptyRow # take m b" using m by simp
      have d': "drop (Suc m) ?b' = drop (Suc m) b" using m by simp
      have "clearLines_loop b row cleared = clearLines_loop ?b' row (cleared + 1)"
        using True full n by (subst clearLines_loop.simps) simp
      also note IH [unfolded t' d']
      finally show ?thesis
        using full by (simp add: n tk not_rowFull_emptyRow replicate_app_Cons_same)
    next
      case notfull: False
      have "clearLines_loop b row cleared = clearLines_loop b (row - 1) cleared"
        using True notfull n by (subst clearLines_loop.simps) simp
      also have "\<dots> = (replicate (length (filter rowFull (take m b))) emptyRow
          @ filter (\<lambda>r. \<not> rowFull r) (take m b) @ drop m b,
         cleared + length (filter rowFull (take m b)))"
      proof -
        have nf': "\<not> rowFull (b ! nat row)" using notfull n by simp
        have len': "nat (row - 1 + 1) \<le> length b" using m n by simp
        show ?thesis using "1.IH"(2) [OF True nf' len'] unfolding n .
      qed
      finally show ?thesis
        using notfull m by (simp add: n tk Cons_nth_drop_Suc)
    qed
  qed
qed

text \<open>
  Claim C5. On a board of \<open>TOTAL_ROWS\<close> rows, \<open>clearLines\<close> removes exactly the rows
  without an empty cell, puts one empty row on top for each removed row, keeps the other
  rows in their order, and returns the number of removed rows; full rows that are not
  adjacent are all removed in the one call. A board without a full row comes back unchanged
  with the count 0.
\<close>

theorem clearLines_spec:
  "length b = nat TOTAL_ROWS \<Longrightarrow>
   clearLines b =
     (replicate (length (filter rowFull b)) emptyRow @ filter (\<lambda>r. \<not> rowFull r) b,
      length (filter rowFull b))
   \<and> ((\<forall>r \<in> set b. \<not> rowFull r) \<longrightarrow> clearLines b = (b, 0))"
proof -
  assume len: "length b = nat TOTAL_ROWS"
  have n: "nat (TOTAL_ROWS - 1 + 1) = length b" using len by simp
  have eq: "clearLines b =
     (replicate (length (filter rowFull b)) emptyRow @ filter (\<lambda>r. \<not> rowFull r) b,
      length (filter rowFull b))"
    unfolding clearLines_def using clearLines_loop_spec [of "TOTAL_ROWS - 1" b 0] n by simp
  have "clearLines b = (b, 0)" if "\<forall>r \<in> set b. \<not> rowFull r"
  proof -
    from that have "filter rowFull b = []" "filter (\<lambda>r. \<not> rowFull r) b = b"
      by (simp_all add: filter_empty_conv)
    with eq show ?thesis by simp
  qed
  with eq show ?thesis by blast
qed


theorem clearLines_spec_witness:
  "length sampleStack = nat TOTAL_ROWS \<and>
   clearLines sampleStack =
     (replicate 20 emptyRow @ [emptyRow[0 := Some PcT], emptyRow[3 := Some PcO]], 2) \<and>
   length createBoard = nat TOTAL_ROWS \<and> filter rowFull createBoard = [] \<and>
   clearLines createBoard = (createBoard, 0)"
proof -
  have a: "length sampleStack = nat TOTAL_ROWS"
    by code_simp
  have b: "replicate (length (filter rowFull sampleStack)) emptyRow
             @ filter (\<lambda>r. \<not> rowFull r) sampleStack
           = replicate 20 emptyRow @ [emptyRow[0 := Some PcT], emptyRow[3 := Some PcO]]"
    by code_simp
  have c: "length (filter rowFull sampleStack) = 2"
    by code_simp
  have d: "length createBoard = nat TOTAL_ROWS"
    by code_simp
  have e: "\<forall>r \<in> set createBoard. \<not> rowFull r"
    by code_simp
  from clearLines_spec [OF a] b c have "clearLines sampleStack =
     (replicate 20 emptyRow @ [emptyRow[0 := Some PcT], emptyRow[3 := Some PcO]], 2)"
    by (simp only:)
  moreover from clearLines_spec [OF d] e have "clearLines createBoard = (createBoard, 0)"
    by blast
  moreover from e have "filter rowFull createBoard = []"
    by (simp add: filter_empty_conv)
  ultimately show ?thesis
    using a d by blast
qed

subsection \<open>Scoring\<close>

lemma floor_three_halves: "\<lfloor>(3 / 2 :: rat) * of_int x\<rfloor> = (x * 3) div 2"
proof -
  have "(3 / 2 :: rat) * of_int x = of_int (x * 3) / of_int 2" by simp
  then show ?thesis by (simp only: floor_divide_of_int_eq)
qed

lemma handleLineScoring_fields:
  assumes "0 < n"
  shows "score (handleLineScoring n s) =
           score s
           + (if n = 4 \<and> backToBack s > 0
              then ((if n < 5 then LINE_SCORES ! n else 0) * level s * 3) div 2
              else (if n < 5 then LINE_SCORES ! n else 0) * level s)
           + (if (if combo s \<ge> 0 then combo s + 1 else 0) > 0
              then 50 * (if combo s \<ge> 0 then combo s + 1 else 0) * level s else 0)"
    and "combo (handleLineScoring n s) = (if combo s \<ge> 0 then combo s + 1 else 0)"
    and "backToBack (handleLineScoring n s) = (if n = 4 then backToBack s + 1 else 0)"
    and "lines (handleLineScoring n s) = lines s + int n"
    and "level (handleLineScoring n s) = (lines s + int n) div 10 + 1"
  using assms by (simp_all add: handleLineScoring_def Let_def LINE_SCORES_def)

text \<open>
  Claim C6. For \<open>n\<close> cleared lines, \<open>1 \<le> n \<le> 4\<close>, \<open>handleLineScoring\<close> adds \<open>base * L\<close> to the
  score, with \<open>base\<close> from the lookup \<open>{1:100, 2:300, 3:500, 4:800}\<close> and \<open>L\<close> the level
  before the update, or \<open>floor (1.5 * base * L)\<close> when \<open>n = 4\<close> and the back-to-back counter
  was positive. The combo counter goes from \<open>-1\<close> to 0 and otherwise up by one, and a
  positive combo adds \<open>50 * combo * L\<close>. The back-to-back counter goes up by one on a
  4-line clear and back to 0 on a smaller one. Two 4-line clears in a row, from a
  back-to-back counter of 0, give the second one the factor 1.5 and leave the counter at 2.
  The combo counter of an engine is never below \<open>-1\<close> (lemma \<open>reachable_engineInv\<close> below).
\<close>

theorem handleLineScoring_clear:
  assumes "1 \<le> n" and "n \<le> 4" and "- 1 \<le> combo s"
  shows "(let L = level s;
              base = the (map_of [(1 :: nat, 100 :: int), (2, 300), (3, 500), (4, 800)] n);
              lineScore = (if n = 4 \<and> backToBack s > 0
                           then \<lfloor>(3 / 2 :: rat) * of_int (base * L)\<rfloor> else base * L);
              combo' = (if combo s = - 1 then 0 else combo s + 1);
              bonus = (if combo' > 0 then 50 * combo' * L else 0);
              s' = handleLineScoring n s
          in score s' = score s + lineScore + bonus \<and>
             combo s' = combo' \<and>
             backToBack s' = (if n = 4 then backToBack s + 1 else 0) \<and>
             lines s' = lines s + int n \<and>
             level s' = (lines s + int n) div 10 + 1)
       \<and> (backToBack s = 0 \<longrightarrow>
            (let s1 = handleLineScoring 4 s;
                 s2 = handleLineScoring 4 s1
             in backToBack s2 = 2 \<and>
                score s2 - score s1 =
                  \<lfloor>(3 / 2 :: rat) * of_int (800 * level s1)\<rfloor> + 50 * combo s2 * level s1))"
proof -
  from assms(1,2) consider "n = 1" | "n = 2" | "n = 3" | "n = 4"
    by linarith
  then have base: "the (map_of [(1 :: nat, 100 :: int), (2, 300), (3, 500), (4, 800)] n)
      = (if n < 5 then LINE_SCORES ! n else 0)"
    by cases (simp_all add: LINE_SCORES_def)
  have n0: "0 < n" using assms(1) by simp
  have cmb: "(if combo s \<ge> 0 then combo s + 1 else 0) = (if combo s = - 1 then 0 else combo s + 1)"
    using assms(3) by auto
  have first: "let L = level s;
              base = the (map_of [(1 :: nat, 100 :: int), (2, 300), (3, 500), (4, 800)] n);
              lineScore = (if n = 4 \<and> backToBack s > 0
                           then \<lfloor>(3 / 2 :: rat) * of_int (base * L)\<rfloor> else base * L);
              combo' = (if combo s = - 1 then 0 else combo s + 1);
              bonus = (if combo' > 0 then 50 * combo' * L else 0);
              s' = handleLineScoring n s
          in score s' = score s + lineScore + bonus \<and>
             combo s' = combo' \<and>
             backToBack s' = (if n = 4 then backToBack s + 1 else 0) \<and>
             lines s' = lines s + int n \<and>
             level s' = (lines s + int n) div 10 + 1"
    unfolding Let_def base floor_three_halves handleLineScoring_fields [OF n0] cmb by simp
  have second: "let s1 = handleLineScoring 4 s; s2 = handleLineScoring 4 s1
             in backToBack s2 = 2 \<and>
                score s2 - score s1 =
                  \<lfloor>(3 / 2 :: rat) * of_int (800 * level s1)\<rfloor> + 50 * combo s2 * level s1"
    if "backToBack s = 0"
  proof -
    have c1: "0 \<le> combo (handleLineScoring 4 s)"
      using assms(3) by (simp add: handleLineScoring_fields)
    show ?thesis
      unfolding Let_def floor_three_halves
      using that c1
      by (simp add: handleLineScoring_fields [of 4 "handleLineScoring 4 s"]
          handleLineScoring_fields(3) [of 4 s] LINE_SCORES_def)
  qed
  from first second show ?thesis by blast
qed


theorem handleLineScoring_clear_witness:
  "(1 :: nat) \<le> 4 \<and> - 1 \<le> combo scoringStart \<and> backToBack scoringStart = 0 \<and>
   score (handleLineScoring 4 scoringStart) = 800 \<and>
   combo (handleLineScoring 4 scoringStart) = 0 \<and>
   backToBack (handleLineScoring 4 (handleLineScoring 4 scoringStart)) = 2 \<and>
   score (handleLineScoring 4 (handleLineScoring 4 scoringStart)) = 800 + 1200 + 50"
proof -
  have a: "(1 :: nat) \<le> 4" "(4 :: nat) \<le> 4" "- 1 \<le> combo scoringStart"
    "backToBack scoringStart = 0" "level scoringStart = 1" "score scoringStart = 0"
    "combo scoringStart = - 1"
    by (simp_all add: scoringStart_def fieldInitialisers_def)
  have l1: "level (handleLineScoring 4 scoringStart) = 1"
    by (simp add: handleLineScoring_fields scoringStart_def fieldInitialisers_def)
  have c2: "combo (handleLineScoring 4 (handleLineScoring 4 scoringStart)) = 1"
    by (simp add: handleLineScoring_fields scoringStart_def fieldInitialisers_def)
  from handleLineScoring_clear [OF a(1,2,3)] a(4-) l1 c2 show ?thesis
    by (simp add: Let_def floor_three_halves)
qed

subsection \<open>The bag randomizer\<close>

lemma unitRng_tail: "unitRng g \<Longrightarrow> unitRng (\<lambda>k. g (Suc k))"
  by (simp add: unitRng_def)

lemma shuffle_index: 
  assumes "unitRng g"
  shows "nat \<lfloor>g 0 * of_nat (Suc n + 1)\<rfloor> \<le> Suc n"
proof -
  from assms have "g 0 < 1" "0 \<le> g 0" by (simp_all add: unitRng_def)
  then have "g 0 * of_nat (Suc n + 1) < of_nat (Suc n + 1)"
    by (simp add: mult_less_cancel_right2 del: of_nat_Suc of_nat_add)
  then have "\<lfloor>g 0 * of_nat (Suc n + 1)\<rfloor> < int (Suc n + 1)"
    by (simp add: floor_less_iff del: of_nat_Suc of_nat_add)
  then show ?thesis by linarith
qed

lemma shuffle_loop_mset:
  "unitRng g \<Longrightarrow> n < length vs \<Longrightarrow> mset (fst (shuffle_loop vs n g)) = mset vs"
proof (induction n arbitrary: vs g)
  case 0
  show ?case by simp
next
  case (Suc n)
  let ?j = "nat \<lfloor>g 0 * of_nat (Suc n + 1)\<rfloor>"
  have j: "?j < length vs" using shuffle_index [OF Suc.prems(1), of n] Suc.prems(2) by linarith
  have sw: "mset (vs[Suc n := vs ! ?j, ?j := vs ! Suc n]) = mset vs"
    using j Suc.prems(2) by (simp add: mset_swap)
  have "mset (fst (shuffle_loop (vs[Suc n := vs ! ?j, ?j := vs ! Suc n]) n (\<lambda>k. g (Suc k))))
      = mset (vs[Suc n := vs ! ?j, ?j := vs ! Suc n])"
    using Suc.prems by (intro Suc.IH unitRng_tail) simp_all
  with sw show ?case by (simp add: Let_def)
qed

lemma shuffle_loop_unitRng: "unitRng g \<Longrightarrow> unitRng (snd (shuffle_loop vs n g))"
  by (induction n arbitrary: vs g) (simp_all add: Let_def unitRng_tail)

lemma shuffle_mset: "unitRng g \<Longrightarrow> mset (fst (shuffle vs g)) = mset vs"
proof (cases vs)
  case Nil
  then show ?thesis by (simp add: shuffle_def)
next
  case (Cons v vs')
  assume "unitRng g"
  then show ?thesis unfolding shuffle_def by (rule shuffle_loop_mset) (simp add: Cons)
qed

lemma shuffle_unitRng: "unitRng g \<Longrightarrow> unitRng (snd (shuffle vs g))"
  by (simp add: shuffle_def shuffle_loop_unitRng)

lemma refillQueue_loop_eq:
  "refillQueue_loop q g =
     (if length q < 7 then (q @ fst (shuffle PIECE_TYPES g), snd (shuffle PIECE_TYPES g))
      else (q, g))"
proof (cases "length q < 7")
  case True
  have "\<not> length (q @ fst (shuffle PIECE_TYPES g)) < 7"
    by (simp add: length_shuffle PIECE_TYPES_def)
  then have "refillQueue_loop (q @ fst (shuffle PIECE_TYPES g)) (snd (shuffle PIECE_TYPES g))
      = (q @ fst (shuffle PIECE_TYPES g), snd (shuffle PIECE_TYPES g))"
    by (subst refillQueue_loop.simps) simp
  with True show ?thesis by (subst refillQueue_loop.simps) simp
next
  case False
  then show ?thesis by (subst refillQueue_loop.simps) simp
qed

lemma dequeued_bags:
  "unitRng g \<Longrightarrow>
   \<exists>bags. (\<forall>bag \<in> set bags. mset bag = mset PIECE_TYPES) \<and>
          n \<le> length (q @ concat bags) \<and> dequeued n q g = take n (q @ concat bags)"
proof (induction n arbitrary: q g)
  case 0
  show ?case by (rule exI [of _ "[]"]) simp
next
  case (Suc n)
  define bag where "bag = fst (shuffle PIECE_TYPES g)"
  define g' where "g' = snd (shuffle PIECE_TYPES g)"
  have bag: "mset bag = mset PIECE_TYPES" "length bag = 7"
    using Suc.prems by (simp_all add: bag_def shuffle_mset length_shuffle PIECE_TYPES_def)
  have g': "unitRng g'" using Suc.prems by (simp add: g'_def shuffle_unitRng)
  show ?case
  proof (cases "length q < 7")
    case True
    have r: "refillQueue_loop q g = (q @ bag, g')"
      using True by (simp add: refillQueue_loop_eq bag_def g'_def)
    from bag(2) obtain t rest where tr: "q @ bag = t # rest"
      by (cases "q @ bag") auto
    from Suc.IH [OF g', of rest] obtain bags where
      bags: "\<forall>b \<in> set bags. mset b = mset PIECE_TYPES" "n \<le> length (rest @ concat bags)"
        "dequeued n rest g' = take n (rest @ concat bags)"
      by blast
    have "q @ concat (bag # bags) = t # rest @ concat bags"
      using tr by simp
    then have "Suc n \<le> length (q @ concat (bag # bags)) \<and>
        dequeued (Suc n) q g = take (Suc n) (q @ concat (bag # bags))"
      using bags(2,3) r tr by (simp del: concat.simps append_assoc)
    moreover have "\<forall>b \<in> set (bag # bags). mset b = mset PIECE_TYPES"
      using bag(1) bags(1) by simp
    ultimately show ?thesis by blast
  next
    case False
    have r: "refillQueue_loop q g = (q, g)"
      using False by (simp add: refillQueue_loop_eq)
    from False obtain t rest where tr: "q = t # rest"
      by (cases q) auto
    from Suc.IH [OF Suc.prems, of rest] obtain bags where
      bags: "\<forall>b \<in> set bags. mset b = mset PIECE_TYPES" "n \<le> length (rest @ concat bags)"
        "dequeued n rest g = take n (rest @ concat bags)"
      by blast
    have "Suc n \<le> length (q @ concat bags) \<and> dequeued (Suc n) q g = take (Suc n) (q @ concat bags)"
      using bags(2,3) r tr by simp
    with bags(1) show ?thesis by blast
  qed
qed

lemma chunk_of_concat:
  "(\<forall>b \<in> set bags. length b = k) \<Longrightarrow> i < length bags \<Longrightarrow>
   take k (drop (k * i) (concat bags)) = bags ! i"
proof (induction bags arbitrary: i)
  case Nil
  then show ?case by simp
next
  case (Cons b bags)
  show ?case
  proof (cases i)
    case 0
    with Cons.prems show ?thesis by simp
  next
    case (Suc i')
    with Cons.prems have "take k (drop (k * i') (concat bags)) = bags ! i'"
      by (intro Cons.IH) simp_all
    with Cons.prems Suc show ?thesis by simp
  qed
qed


lemma spawnNextPiece_dequeues:
  assumes "fst (refillQueue_loop (queue s) (rng s)) = t # rest"
  shows "queue (spawnNextPiece C s) = rest"
    and "rng (spawnNextPiece C s) = snd (refillQueue_loop (queue s) (rng s))"
    and "state (spawnNextPiece C s) \<noteq> over \<Longrightarrow> active (spawnNextPiece C s) = Some (createPiece t)"
  using assms by (auto simp: spawnNextPiece_def refillQueue_def Let_def endGame_def)

text \<open>
  Claim C9. Whatever the random numbers in \<open>[0, 1)\<close> are, \<open>shuffle\<close> returns a
  rearrangement of its input, so each bag holds each of the 7 piece types exactly once;
  \<open>refillQueue\<close> appends one whole bag when fewer than 7 pieces are queued and nothing
  otherwise; and the pieces taken from the queue since a reset fall into consecutive groups
  of 7 that each hold every piece type exactly once.
\<close>

theorem bag_invariant:
  assumes "unitRng g"
  shows "mset (fst (shuffle vs g)) = mset vs \<and>
         mset (fst (shuffle PIECE_TYPES g)) = mset [PcI, PcO, PcT, PcS, PcZ, PcJ, PcL] \<and>
         refillQueue_loop q g =
           (if length q < 7
            then (q @ fst (shuffle PIECE_TYPES g), snd (shuffle PIECE_TYPES g))
            else (q, g)) \<and>
         (\<forall>i<m. mset (take 7 (drop (7 * i) (dequeued (7 * m) [] g)))
                  = mset [PcI, PcO, PcT, PcS, PcZ, PcJ, PcL])"
proof -
  have groups: "mset (take 7 (drop (7 * i) (dequeued (7 * m) [] g))) = mset PIECE_TYPES"
    if "i < m" for i
  proof -
    from dequeued_bags [OF assms, of "7 * m" "[]"] obtain bags where
      bags: "\<forall>b \<in> set bags. mset b = mset PIECE_TYPES" "7 * m \<le> length (concat bags)"
        "dequeued (7 * m) [] g = take (7 * m) (concat bags)"
      by auto
    have len: "\<forall>b \<in> set bags. length b = 7"
    proof
      fix b assume "b \<in> set bags"
      with bags(1) have "size (mset b) = size (mset PIECE_TYPES)" by simp
      then show "length b = 7" by (simp add: PIECE_TYPES_def)
    qed
    then have "length (concat bags) = 7 * length bags"
      by (induction bags) simp_all
    with bags(2) that have i: "i < length bags" by simp
    have "7 * i + 7 \<le> 7 * m" using that by simp
    then have "take 7 (drop (7 * i) (take (7 * m) (concat bags)))
        = take 7 (drop (7 * i) (concat bags))"
      by (simp add: drop_take min_def)
    also have "\<dots> = bags ! i"
      using len i by (rule chunk_of_concat)
    finally show ?thesis
      using bags(1,3) i by simp
  qed
  show ?thesis
    using assms groups by (simp add: shuffle_mset refillQueue_loop_eq PIECE_TYPES_def)
qed

theorem bag_invariant_witness:
  "unitRng zeroRng \<and>
   fst (shuffle PIECE_TYPES zeroRng) = [PcO, PcT, PcS, PcZ, PcJ, PcL, PcI] \<and>
   mset (fst (shuffle PIECE_TYPES zeroRng)) = mset [PcI, PcO, PcT, PcS, PcZ, PcJ, PcL] \<and>
   dequeued (7 * 2) [] zeroRng =
     [PcO, PcT, PcS, PcZ, PcJ, PcL, PcI, PcO, PcT, PcS, PcZ, PcJ, PcL, PcI] \<and>
   mset (take 7 (drop (7 * 1) (dequeued (7 * 2) [] zeroRng)))
     = mset [PcI, PcO, PcT, PcS, PcZ, PcJ, PcL]"
proof -
  have u: "unitRng zeroRng"
    by (simp add: unitRng_def zeroRng_def)
  have a: "fst (shuffle PIECE_TYPES zeroRng) = [PcO, PcT, PcS, PcZ, PcJ, PcL, PcI]"
    by code_simp
  have b: "dequeued (7 * 2) [] zeroRng =
     [PcO, PcT, PcS, PcZ, PcJ, PcL, PcI, PcO, PcT, PcS, PcZ, PcJ, PcL, PcI]"
    by code_simp
  have one: "(1 :: nat) < 2"
    by simp
  from bag_invariant [OF u, of PIECE_TYPES "[]" 2] have
    c: "mset (fst (shuffle PIECE_TYPES zeroRng)) = mset [PcI, PcO, PcT, PcS, PcZ, PcJ, PcL]"
    and d: "\<forall>i<2. mset (take 7 (drop (7 * i) (dequeued (7 * 2) [] zeroRng)))
             = mset [PcI, PcO, PcT, PcS, PcZ, PcJ, PcL]"
    by blast+
  from d one have "mset (take 7 (drop (7 * 1) (dequeued (7 * 2) [] zeroRng)))
       = mset [PcI, PcO, PcT, PcS, PcZ, PcJ, PcL]"
    by blast
  with u a b c show ?thesis by blast
qed

subsection \<open>What the methods keep\<close>

lemma keepsGame_refl: "keepsGame s s"
  by (simp add: keepsGame_def)

lemma keepsGame_trans: "keepsGame s s' \<Longrightarrow> keepsGame s' s'' \<Longrightarrow> keepsGame s s''"
  by (auto simp: keepsGame_def)

lemma keepsGame_engineInv: "keepsGame s s' \<Longrightarrow> engineInv s \<Longrightarrow> engineInv s'"
  by (auto simp: keepsGame_def engineInv_def)

lemma refillQueue_nonempty: "queue (refillQueue s) \<noteq> []"
proof -
  have "7 \<le> length (fst (refillQueue_loop q g))" for q g
    by (simp add: refillQueue_loop_eq length_shuffle PIECE_TYPES_def)
  from this [of "queue s" "rng s"] show ?thesis
    by (auto simp: refillQueue_def Let_def)
qed

lemma refillQueue_fields:
  "state (refillQueue s) = state s" "active (refillQueue s) = active s"
  "score (refillQueue s) = score s" "level (refillQueue s) = level s"
  "lines (refillQueue s) = lines s" "board (refillQueue s) = board s"
  "holdPiece (refillQueue s) = holdPiece s" "gravityInterval (refillQueue s) = gravityInterval s"
  "combo (refillQueue s) = combo s"
  by (simp_all add: refillQueue_def Let_def)

lemma spawnNextPiece_fields:
  "score (spawnNextPiece C s) = score s" "level (spawnNextPiece C s) = level s"
  "lines (spawnNextPiece C s) = lines s" "board (spawnNextPiece C s) = board s"
  "holdPiece (spawnNextPiece C s) = holdPiece s"
  "gravityInterval (spawnNextPiece C s) = gravityInterval s"
  "combo (spawnNextPiece C s) = combo s"
  by (simp_all add: spawnNextPiece_def Let_def endGame_def refillQueue_fields
      split: list.split)

lemma spawnNextPiece_phase:
  "state s = playing \<Longrightarrow>
   (active (spawnNextPiece C s) = None \<longleftrightarrow> state (spawnNextPiece C s) = over)"
  using refillQueue_nonempty [of s]
  by (auto simp: spawnNextPiece_def Let_def endGame_def refillQueue_fields split: list.split)

lemma handleLineScoring_frame:
  "state (handleLineScoring n s) = state s" "active (handleLineScoring n s) = active s"
  "board (handleLineScoring n s) = board s"
  by (simp_all add: handleLineScoring_def Let_def)

lemma handleLineScoring_lines:
  "0 \<le> lines s \<Longrightarrow> 0 \<le> lines (handleLineScoring n s) \<and> 1 \<le> level (handleLineScoring n s)"
  by (simp add: handleLineScoring_def Let_def pos_imp_zdiv_nonneg_iff)

lemma handleLineScoring_score:
  assumes "0 \<le> level s"
  shows "score s \<le> score (handleLineScoring n s)"
proof (cases "0 < n")
  case False
  then show ?thesis by (simp add: handleLineScoring_def Let_def)
next
  case True
  define base where "base = (if n < 5 then LINE_SCORES ! n else 0)"
  define lineScore where "lineScore =
    (if n = 4 \<and> backToBack s > 0 then (base * level s * 3) div 2 else base * level s)"
  define bonus where "bonus =
    (if (if combo s \<ge> 0 then combo s + 1 else 0) > 0
     then 50 * (if combo s \<ge> 0 then combo s + 1 else 0) * level s else 0)"
  have eq: "score (handleLineScoring n s) = score s + lineScore + bonus"
    unfolding lineScore_def bonus_def base_def by (rule handleLineScoring_fields(1) [OF True])
  have base: "0 \<le> base"
  proof (cases "n < 5")
    case True
    then have "n = 0 \<or> n = 1 \<or> n = 2 \<or> n = 3 \<or> n = 4" by linarith
    then show ?thesis by (auto simp: base_def LINE_SCORES_def)
  next
    case False
    then show ?thesis by (simp add: base_def)
  qed
  then have prod: "0 \<le> base * level s"
    using assms by (rule mult_nonneg_nonneg)
  then have "0 \<le> (base * level s * 3) div 2"
    by (simp add: pos_imp_zdiv_nonneg_iff)
  with prod have ls: "0 \<le> lineScore"
    by (simp add: lineScore_def)
  have "0 \<le> 50 * c * level s" if "0 < c" for c :: int
    using that assms by simp
  then have "0 \<le> bonus"
    by (simp add: bonus_def)
  with ls eq show ?thesis by linarith
qed

lemma lockPiece_phase:
  assumes "state s = playing" and "active s \<noteq> None"
  shows "active (lockPiece C s) = None \<longleftrightarrow> state (lockPiece C s) = over"
proof -
  from assms(2) obtain a where a: "active s = Some a" by auto
  show ?thesis
    using assms(1) a spawnNextPiece_phase
    by (simp add: lockPiece_def Let_def endGame_def handleLineScoring_frame)
qed

lemma lockPiece_score:
  assumes "0 \<le> level s"
  shows "score s \<le> score (lockPiece C s)"
proof -
  have "score s \<le> score (handleLineScoring n (s\<lparr>board := b\<rparr>))" for n b
    using handleLineScoring_score [of "s\<lparr>board := b\<rparr>" n] assms by simp
  then show ?thesis
    by (simp add: lockPiece_def Let_def endGame_def spawnNextPiece_fields split: option.split)
qed

lemma lockPiece_lines:
  assumes "0 \<le> lines s" and "1 \<le> level s"
  shows "0 \<le> lines (lockPiece C s) \<and> 1 \<le> level (lockPiece C s)"
proof -
  have "0 \<le> lines (handleLineScoring n (s\<lparr>board := b\<rparr>)) \<and>
        1 \<le> level (handleLineScoring n (s\<lparr>board := b\<rparr>))" for n b
    using handleLineScoring_lines [of "s\<lparr>board := b\<rparr>" n] assms by simp
  with assms show ?thesis
    by (simp add: lockPiece_def Let_def endGame_def spawnNextPiece_fields split: option.split)
qed

lemma handleLineScoring_interval: "0 < gravityInterval (handleLineScoring n s)"
proof -
  have "(50 :: rat) \<le> computeGravityInterval t" for t
    by (simp add: computeGravityInterval_def Let_def)
  then have "(0 :: rat) < computeGravityInterval t" for t
    by (rule less_le_trans [rotated]) simp
  then show ?thesis
    by (simp add: handleLineScoring_def Let_def)
qed

lemma lockPiece_interval:
  "0 < gravityInterval s \<Longrightarrow> 0 < gravityInterval (lockPiece C s)"
  using handleLineScoring_interval
  by (simp add: lockPiece_def Let_def endGame_def spawnNextPiece_fields split: option.split)

lemma handleLineScoring_combo: "- 1 \<le> combo (handleLineScoring n s)"
  by (simp add: handleLineScoring_def Let_def)

lemma lockPiece_combo: "- 1 \<le> combo s \<Longrightarrow> - 1 \<le> combo (lockPiece C s)"
  using handleLineScoring_combo
  by (simp add: lockPiece_def Let_def endGame_def spawnNextPiece_fields split: option.split)

lemma lockPiece_engineInv:
  assumes "engineInv s" and "state s = playing"
  shows "engineInv (lockPiece C s)"
proof -
  from assms have "active s \<noteq> None" by (simp add: engineInv_def)
  with assms lockPiece_phase [of s C] lockPiece_lines [of s C] lockPiece_interval [of s C]
    lockPiece_combo [of s C]
  show ?thesis
    by (simp add: engineInv_def)
qed

lemma tryMove_keeps: "keepsGame s (snd (tryMove C dx dy s))"
  by (simp add: tryMove_def keepsGame_def Let_def split: option.split)

lemma update_loop_keeps:
  assumes "update_loop C interval s = Some s'"
  shows "keepsGame s s'"
proof (rule update_loop.raw_induct [where P = "\<lambda>C interval s s'. keepsGame s s'", OF _ assms],
    goal_cases)
  case (1 loop C interval s s')
  let ?s1 = "s\<lparr>gravityTimer := subDouble (gravityTimer s) interval\<rparr>"
  let ?r = "tryMove C 0 1 ?s1"
  have s1: "keepsGame s (snd ?r)"
    using tryMove_keeps [of ?s1 C 0 1] by (simp add: keepsGame_def)
  show ?case
  proof (cases "interval \<le> gravityTimer s \<and> active s \<noteq> None")
    case False
    with 1(2) have "s' = s" by (auto split: if_splits)
    then show ?thesis by (simp add: keepsGame_refl)
  next
    case True
    show ?thesis
    proof (cases "fst ?r")
      case False
      with True 1(2) have "s' = (snd ?r)\<lparr>grounded := True\<rparr>"
        by (auto simp: Let_def split: if_splits)
      with s1 show ?thesis by (simp add: keepsGame_def)
    next
      case moved: True
      let ?s2 = "if softDropActive (snd ?r) then (snd ?r)\<lparr>score := score (snd ?r) + 1\<rparr>
                 else snd ?r"
      from True moved 1(2) have "loop C interval ?s2 = Some s'"
        by (auto simp: Let_def split: if_splits)
      then have "keepsGame ?s2 s'" by (rule 1(1))
      moreover have "keepsGame s ?s2" using s1 by (simp add: keepsGame_def)
      ultimately show ?thesis by (rule keepsGame_trans [rotated])
    qed
  qed
qed

lemma rotate_kicks_keeps:
  "active s \<noteq> None \<Longrightarrow> keepsGame s (rotate_kicks C s a toRotation kicks)"
proof (induction kicks)
  case Nil
  then show ?case by (simp add: keepsGame_refl)
next
  case (Cons k kicks)
  obtain offsetX offsetY where k: "k = (offsetX, offsetY)" by (cases k)
  show ?case
  proof (cases "collides C (board s) (ptype a) (px a + offsetX) (py a + offsetY) toRotation")
    case True
    with Cons k show ?thesis by (simp add: Let_def)
  next
    case False
    with k Cons.prems show ?thesis by (simp add: Let_def keepsGame_def)
  qed
qed

lemma move_keeps: "keepsGame s (move C direction s)"
  using tryMove_keeps [of s C direction 0]
  by (simp add: move_def Let_def keepsGame_def)

lemma rotate_keeps: "keepsGame s (rotate C clockwise s)"
  by (auto simp: rotate_def Let_def keepsGame_refl rotate_kicks_keeps split: option.split)

lemma tapSoftDrop_keeps: "keepsGame s (tapSoftDrop C s)"
  using tryMove_keeps [of s C 0 1]
  by (simp add: tapSoftDrop_def Let_def keepsGame_def)

lemma setSoftDrop_keeps: "keepsGame s (setSoftDrop act s)"
  by (simp add: setSoftDrop_def Let_def keepsGame_def)

lemma togglePause_engineInv: "engineInv s \<Longrightarrow> engineInv (togglePause s)"
  by (auto simp: togglePause_def engineInv_def)

lemma togglePause_score: "score (togglePause s) = score s"
  by (simp add: togglePause_def)

lemma hold_score: "score (hold C s) = score s"
  by (simp add: hold_def Let_def endGame_def spawnNextPiece_fields split: option.split)

lemma hold_engineInv: "engineInv s \<Longrightarrow> engineInv (hold C s)"
  using spawnNextPiece_phase
  by (auto simp: hold_def Let_def endGame_def engineInv_def spawnNextPiece_fields
      split: option.split)

lemma update_score:
  assumes "update C delta s = Some s'" and "0 \<le> level s"
  shows "score s \<le> score s'"
proof (cases "state s \<noteq> playing \<or> active s = None")
  case True
  with assms(1) show ?thesis by (simp add: update_def)
next
  case False
  let ?i = "if softDropActive s then SOFT_DROP_INTERVAL else gravityInterval s"
  let ?s1 = "s\<lparr>gravityTimer := addDouble (gravityTimer s) delta\<rparr>"
  from False assms(1) obtain s2 where loop: "update_loop C ?i ?s1 = Some s2"
    by (auto simp: update_def Let_def split: option.splits)
  from update_loop_keeps [OF loop] have k: "score s \<le> score s2" "level s2 = level s"
    by (simp_all add: keepsGame_def)
  let ?s3 = "s2\<lparr>lockTimer := addDouble (lockTimer s2) delta\<rparr>"
  have "score s2 \<le> score (lockPiece C ?s3)"
    using lockPiece_score [of ?s3 C] k(2) assms(2) by simp
  with False assms(1) loop k(1) show ?thesis
    by (auto simp: update_def Let_def split: if_splits)
qed

lemma update_engineInv:
  assumes "update C delta s = Some s'" and "engineInv s"
  shows "engineInv s'"
proof (cases "state s \<noteq> playing \<or> active s = None")
  case True
  with assms show ?thesis by (simp add: update_def)
next
  case False
  let ?i = "if softDropActive s then SOFT_DROP_INTERVAL else gravityInterval s"
  let ?s1 = "s\<lparr>gravityTimer := addDouble (gravityTimer s) delta\<rparr>"
  from False assms(1) obtain s2 where loop: "update_loop C ?i ?s1 = Some s2"
    by (auto simp: update_def Let_def split: option.splits)
  have "keepsGame s s2"
    using update_loop_keeps [OF loop] by (simp add: keepsGame_def)
  then have inv2: "engineInv s2" and st2: "state s2 = playing"
    using assms(2) False by (auto simp: keepsGame_def engineInv_def)
  let ?s3 = "s2\<lparr>lockTimer := addDouble (lockTimer s2) delta\<rparr>"
  have "engineInv ?s3" "state ?s3 = playing"
    using inv2 st2 by (simp_all add: engineInv_def)
  then have "engineInv (lockPiece C ?s3)" by (rule lockPiece_engineInv)
  with False assms(1) loop inv2 show ?thesis
    by (auto simp: update_def Let_def engineInv_def split: if_splits)
qed

lemma hardDrop_score:
  assumes "hardDrop C s = Some s'" and "0 \<le> level s"
  shows "score s \<le> score s'"
proof -
  have "score s \<le> score (lockPiece C (s\<lparr>active := Some a', score := score s + d * 2\<rparr>))"
    if "0 < d" for a' d
    using lockPiece_score [of "s\<lparr>active := Some a', score := score s + d * 2\<rparr>" C] assms(2) that
    by simp
  with assms(1) show ?thesis
    by (auto simp: hardDrop_def split: if_splits option.splits)
qed

lemma hardDrop_engineInv:
  assumes "hardDrop C s = Some s'" and "engineInv s"
  shows "engineInv s'"
proof -
  have "engineInv (lockPiece C (s\<lparr>active := Some a', score := score s + d * 2\<rparr>))"
    if "state s = playing" for a' d
    using that assms(2) by (intro lockPiece_engineInv) (simp_all add: engineInv_def)
  with assms show ?thesis
    by (auto simp: hardDrop_def split: if_splits option.splits)
qed

lemma reset_engineInv: "engineInv (reset C s)"
  using spawnNextPiece_phase
  by (simp add: reset_def engineInv_def spawnNextPiece_fields refillQueue_fields)

lemma exec_engineInv:
  assumes "exec C c s = Some s'" and "engineInv s"
  shows "engineInv s'"
proof (cases c)
  case Reset
  with assms show ?thesis by (auto simp: reset_engineInv)
next
  case (Update delta)
  with assms show ?thesis by (auto intro: update_engineInv)
next
  case (Move direction)
  with assms move_keeps [of s C direction] show ?thesis by (auto intro: keepsGame_engineInv)
next
  case (Rotate clockwise)
  with assms rotate_keeps [of s C clockwise] show ?thesis by (auto intro: keepsGame_engineInv)
next
  case HardDrop
  with assms show ?thesis by (auto intro: hardDrop_engineInv)
next
  case TapSoftDrop
  with assms tapSoftDrop_keeps [of s C] show ?thesis by (auto intro: keepsGame_engineInv)
next
  case (SetSoftDrop act)
  with assms setSoftDrop_keeps [of s act] show ?thesis by (auto intro: keepsGame_engineInv)
next
  case Hold
  with assms show ?thesis by (auto intro: hold_engineInv)
next
  case TogglePause
  with assms show ?thesis by (auto intro: togglePause_engineInv)
qed

lemma reachable_engineInv: "reachable C s \<Longrightarrow> engineInv s"
  by (induction rule: reachable.induct) (auto simp: newGame_def reset_engineInv intro: exec_engineInv)

lemma exec_score:
  assumes "exec C c s = Some s'" and "c \<noteq> Reset" and "0 \<le> level s"
  shows "score s \<le> score s'"
proof (cases c)
  case Reset
  with assms show ?thesis by simp
next
  case (Update delta)
  with assms show ?thesis by (auto intro: update_score)
next
  case (Move direction)
  with assms move_keeps [of s C direction] show ?thesis by (auto simp: keepsGame_def)
next
  case (Rotate clockwise)
  with assms rotate_keeps [of s C clockwise] show ?thesis by (auto simp: keepsGame_def)
next
  case HardDrop
  with assms show ?thesis by (auto intro: hardDrop_score)
next
  case TapSoftDrop
  with assms tapSoftDrop_keeps [of s C] show ?thesis by (auto simp: keepsGame_def)
next
  case (SetSoftDrop act)
  with assms setSoftDrop_keeps [of s act] show ?thesis by (auto simp: keepsGame_def)
next
  case Hold
  with assms show ?thesis by (auto simp: hold_score)
next
  case TogglePause
  with assms show ?thesis by (auto simp: togglePause_score)
qed

subsection \<open>The shape of the board\<close>

lemma boardShape_createBoard: "boardShape createBoard"
  by (simp add: boardShape_def createBoard_def emptyRow_def)

lemma boardShape_update:
  assumes "boardShape b"
  shows "boardShape (b[n := (b ! n)[m := v]])"
proof (cases "n < length b")
  case True
  have "set (b[n := (b ! n)[m := v]]) \<subseteq> insert ((b ! n)[m := v]) (set b)"
    by (rule set_update_subset_insert)
  moreover have "length ((b ! n)[m := v]) = nat COLS"
    using assms True by (simp add: boardShape_def)
  ultimately show ?thesis
    using assms by (auto simp: boardShape_def)
next
  case False
  then have "b[n := (b ! n)[m := v]] = b"
    by (intro list_update_beyond) simp
  with assms show ?thesis by (simp only:)
qed

lemma boardShape_stamp_cols:
  "boardShape (fst bt) \<Longrightarrow> boardShape (fst (stamp_cols bt t cs x boardY col))"
  by (induction cs arbitrary: bt col) (simp_all add: Let_def boardShape_update)

lemma boardShape_stamp_rows:
  "boardShape (fst bt) \<Longrightarrow> boardShape (fst (stamp_rows bt t m x y row))"
  by (induction m arbitrary: bt row) (simp_all add: boardShape_stamp_cols)

lemma boardShape_clearLines:
  assumes "boardShape b"
  shows "boardShape (fst (clearLines b))"
proof -
  have len: "nat (TOTAL_ROWS - 1 + 1) = length b"
    using assms by (simp add: boardShape_def)
  have eq: "fst (clearLines b) =
      replicate (length (filter rowFull b)) emptyRow @ filter (\<lambda>r. \<not> rowFull r) b"
    unfolding clearLines_def using clearLines_loop_spec [of "TOTAL_ROWS - 1" b 0] len by simp
  have "length (filter rowFull b) + length (filter (\<lambda>r. \<not> rowFull r) b) = length b"
    by (rule sum_length_filter_compl)
  then show ?thesis
    using assms unfolding eq by (auto simp: boardShape_def emptyRow_def)
qed

lemma boardShape_lockPiece:
  assumes "boardShape (board s)"
  shows "boardShape (board (lockPiece C s))"
proof (cases "active s")
  case None
  with assms show ?thesis by (simp add: lockPiece_def)
next
  case (Some a)
  let ?bt = "stamp_rows (board s, False) (ptype a) (getMatrix C (ptype a) (rotation a))
      (px a) (py a) 0"
  have st: "boardShape (fst ?bt)"
    using assms by (intro boardShape_stamp_rows) simp
  then have "boardShape (fst (clearLines (fst ?bt)))"
    by (rule boardShape_clearLines)
  with st Some show ?thesis
    by (simp add: lockPiece_def Let_def endGame_def spawnNextPiece_fields
        handleLineScoring_frame)
qed

lemma boardShape_exec:
  assumes "exec C c s = Some s'" and "boardShape (board s)"
  shows "boardShape (board s')"
proof (cases c)
  case Reset
  with assms(1) show ?thesis
    by (auto simp: reset_def spawnNextPiece_fields refillQueue_fields boardShape_createBoard)
next
  case (Update delta)
  show ?thesis
  proof (cases "state s \<noteq> playing \<or> active s = None")
    case True
    with assms Update show ?thesis by (simp add: update_def)
  next
    case False
    let ?i = "if softDropActive s then SOFT_DROP_INTERVAL else gravityInterval s"
    let ?s1 = "s\<lparr>gravityTimer := addDouble (gravityTimer s) delta\<rparr>"
    from False assms(1) Update obtain s2 where loop: "update_loop C ?i ?s1 = Some s2"
      by (auto simp: update_def Let_def split: option.splits)
    from update_loop_keeps [OF loop] have b2: "board s2 = board s"
      by (simp add: keepsGame_def)
    let ?s3 = "s2\<lparr>lockTimer := addDouble (lockTimer s2) delta\<rparr>"
    have "boardShape (board (lockPiece C ?s3))"
      using b2 assms(2) by (intro boardShape_lockPiece) simp
    with False assms Update loop b2 show ?thesis
      by (auto simp: update_def Let_def split: if_splits)
  qed
next
  case (Move direction)
  with assms move_keeps [of s C direction] show ?thesis by (auto simp: keepsGame_def)
next
  case (Rotate clockwise)
  with assms rotate_keeps [of s C clockwise] show ?thesis by (auto simp: keepsGame_def)
next
  case HardDrop
  have "boardShape (board (lockPiece C (s\<lparr>active := Some a', score := score s + d * 2\<rparr>)))"
    for a' d
    using assms(2) by (intro boardShape_lockPiece) simp
  with assms HardDrop show ?thesis
    by (auto simp: hardDrop_def split: if_splits option.splits)
next
  case TapSoftDrop
  with assms tapSoftDrop_keeps [of s C] show ?thesis by (auto simp: keepsGame_def)
next
  case (SetSoftDrop act)
  with assms setSoftDrop_keeps [of s act] show ?thesis by (auto simp: keepsGame_def)
next
  case Hold
  with assms show ?thesis
    by (auto simp: hold_def Let_def endGame_def spawnNextPiece_fields split: option.splits)
next
  case TogglePause
  with assms show ?thesis by (auto simp: togglePause_def)
qed

text \<open>
  The board of every engine state has the shape that keeps the list reads and writes of
  the model in range.
\<close>

lemma reachable_boardShape: "reachable C s \<Longrightarrow> boardShape (board s)"
proof (induction rule: reachable.induct)
  case (constructed g)
  show ?case
    by (simp add: newGame_def reset_def spawnNextPiece_fields refillQueue_fields
        boardShape_createBoard)
next
  case (command s c s')
  from command(2,3) show ?case by (rule boardShape_exec)
qed

subsection \<open>The states of the examples\<close>

lemma reachable_run: "reachable C s \<Longrightarrow> run C cs s = Some s' \<Longrightarrow> reachable C s'"
proof (induction cs arbitrary: s)
  case Nil
  then show ?case by simp
next
  case (Cons c cs)
  then show ?case
    by (auto split: option.splits intro: reachable.command)
qed

lemma gameOverState_eval:
  "(let r = run sampleCatalog gameOverCommands (newGame sampleCatalog zeroRng)
    in r \<noteq> None \<and> state (the r) = over \<and> active (the r) = None \<and>
       \<not> softDropActive (the r))"
  by code_simp

lemma gameOverState_facts:
  "run sampleCatalog gameOverCommands (newGame sampleCatalog zeroRng) = Some gameOverState"
  "state gameOverState = over" "active gameOverState = None" "\<not> softDropActive gameOverState"
  using gameOverState_eval by (auto simp: Let_def gameOverState_def)

lemma gameOverState_reachable: "reachable sampleCatalog gameOverState"
  using reachable.constructed gameOverState_facts(1) by (rule reachable_run)

lemma tappedState_reachable: "reachable sampleCatalog tappedState"
proof -
  have "exec sampleCatalog TapSoftDrop (newGame sampleCatalog zeroRng) = Some tappedState"
    by (simp add: tappedState_def)
  with reachable.constructed show ?thesis by (rule reachable.command)
qed

subsection \<open>The terminal phase\<close>

text \<open>
  Claim C3, as stated, fails: in the phase \<open>over\<close>, \<open>setSoftDrop(true)\<close> sets the soft-drop
  flag (and clears the gravity timer), since \<open>setSoftDrop\<close> does not look at the phase.
\<close>

theorem over_terminal_counterexample:
  "state gameOverState = over \<and> \<not> softDropActive gameOverState \<and>
   map_option softDropActive (exec sampleCatalog (SetSoftDrop True) gameOverState) = Some True \<and>
   exec sampleCatalog (SetSoftDrop True) gameOverState \<noteq> Some gameOverState"
proof -
  have on: "softDropActive (setSoftDrop True gameOverState)"
    using gameOverState_facts(4) by (simp add: setSoftDrop_def)
  with gameOverState_facts(4) have "setSoftDrop True gameOverState \<noteq> gameOverState"
    by metis
  with on gameOverState_facts(2,4) show ?thesis by simp
qed

text \<open>
  Claim C3, amended. In the phase \<open>over\<close>, every command except \<open>reset\<close> returns, leaves the
  phase \<open>over\<close>, and changes nothing but the soft-drop flag and the gravity timer; every
  command except \<open>reset\<close> and \<open>setSoftDrop\<close> (that is \<open>update\<close>, \<open>move\<close>, \<open>rotate\<close>,
  \<open>hardDrop\<close>, \<open>tapSoftDrop\<close>, \<open>hold\<close> and \<open>togglePause\<close>) leaves the whole state unchanged.
\<close>

theorem over_terminal:
  assumes "state s = over" and "c \<noteq> Reset"
  shows "\<exists>s'. exec C c s = Some s' \<and> state s' = over \<and>
              s'\<lparr>softDropActive := softDropActive s, gravityTimer := gravityTimer s\<rparr> = s \<and>
              ((\<forall>act. c \<noteq> SetSoftDrop act) \<longrightarrow> s' = s)"
proof (cases c)
  case Reset
  with assms show ?thesis by simp
next
  case (Update delta)
  with assms show ?thesis by (simp add: update_def)
next
  case (Move direction)
  with assms show ?thesis by (simp add: move_def)
next
  case (Rotate clockwise)
  with assms show ?thesis by (simp add: rotate_def)
next
  case HardDrop
  with assms show ?thesis by (simp add: hardDrop_def)
next
  case TapSoftDrop
  with assms show ?thesis by (simp add: tapSoftDrop_def)
next
  case (SetSoftDrop act)
  with assms show ?thesis by (auto simp: setSoftDrop_def Let_def)
next
  case Hold
  with assms show ?thesis by (simp add: hold_def)
next
  case TogglePause
  with assms show ?thesis by (simp add: togglePause_def)
qed

theorem over_terminal_witness:
  "state gameOverState = over \<and> HardDrop \<noteq> Reset \<and>
   exec sampleCatalog HardDrop gameOverState = Some gameOverState \<and>
   (\<exists>s'. exec sampleCatalog (SetSoftDrop True) gameOverState = Some s' \<and> state s' = over)"
proof -
  have a: "state gameOverState = over" by (rule gameOverState_facts(2))
  have b: "HardDrop \<noteq> Reset" "SetSoftDrop True \<noteq> Reset" "\<forall>act. HardDrop \<noteq> SetSoftDrop act"
    by simp_all
  from over_terminal [OF a b(1), of sampleCatalog] b(3)
  have "exec sampleCatalog HardDrop gameOverState = Some gameOverState" by auto
  moreover from over_terminal [OF a b(2), of sampleCatalog]
  have "\<exists>s'. exec sampleCatalog (SetSoftDrop True) gameOverState = Some s' \<and> state s' = over"
    by blast
  ultimately show ?thesis using a b(1) by blast
qed

subsection \<open>The active piece and the phase\<close>

text \<open>
  Claim C10. In every state of an engine, after the constructor and after each command that
  returns, the active piece is null if and only if the phase is \<open>over\<close>.
\<close>

theorem active_null_iff_over:
  "reachable C s \<Longrightarrow> (active s = None \<longleftrightarrow> state s = over)"
  using reachable_engineInv [of C s] by (simp add: engineInv_def)

theorem active_null_iff_over_witness:
  "reachable sampleCatalog gameOverState \<and> active gameOverState = None \<and>
   state gameOverState = over \<and>
   reachable sampleCatalog tappedState \<and> active tappedState \<noteq> None \<and>
   state tappedState \<noteq> over"
proof -
  have "state tappedState \<noteq> over"
    by code_simp
  with active_null_iff_over [OF tappedState_reachable]
    active_null_iff_over [OF gameOverState_reachable]
    gameOverState_facts(2) gameOverState_reachable tappedState_reachable
  show ?thesis by blast
qed

subsection \<open>The score\<close>

text \<open>Claim C7, as stated, fails for \<open>reset\<close>, which sets the score back to 0.\<close>

theorem score_monotone_counterexample:
  "reachable sampleCatalog tappedState \<and>
   exec sampleCatalog Reset tappedState = Some (reset sampleCatalog tappedState) \<and>
   score (reset sampleCatalog tappedState) < score tappedState"
proof -
  have "score (reset sampleCatalog tappedState) = 0"
    by (simp add: reset_def spawnNextPiece_fields refillQueue_fields)
  moreover have "score tappedState = 1"
    by code_simp
  ultimately show ?thesis
    using tappedState_reachable by simp
qed

text \<open>
  Claim C7, amended. In every state of an engine and for every command other than
  \<open>reset\<close> (\<open>update\<close>, \<open>move\<close>, \<open>rotate\<close>, \<open>hardDrop\<close>, \<open>tapSoftDrop\<close>, \<open>setSoftDrop\<close>, \<open>hold\<close>,
  \<open>togglePause\<close>), the score after the command is at least the score before it.
\<close>

theorem score_monotone:
  assumes "reachable C s" and "c \<noteq> Reset" and "exec C c s = Some s'"
  shows "score s \<le> score s'"
proof -
  from assms(1) have "1 \<le> level s"
    using reachable_engineInv [of C s] by (simp add: engineInv_def)
  then have "0 \<le> level s" by simp
  with assms(3,2) show ?thesis by (rule exec_score)
qed

theorem score_monotone_witness:
  "reachable sampleCatalog (newGame sampleCatalog zeroRng) \<and> HardDrop \<noteq> Reset \<and>
   (\<exists>s'. exec sampleCatalog HardDrop (newGame sampleCatalog zeroRng) = Some s' \<and>
         score (newGame sampleCatalog zeroRng) \<le> score s' \<and> score s' = 42)"
proof -
  have r: "reachable sampleCatalog (newGame sampleCatalog zeroRng)"
    by (rule reachable.constructed)
  have e: "(let r = exec sampleCatalog HardDrop (newGame sampleCatalog zeroRng)
            in r \<noteq> None \<and> score (the r) = 42)"
    by code_simp
  then obtain s' where s': "exec sampleCatalog HardDrop (newGame sampleCatalog zeroRng) = Some s'"
    "score s' = 42"
    by (auto simp: Let_def)
  have n: "HardDrop \<noteq> Reset" by simp
  from score_monotone [OF r n s'(1)] r s' show ?thesis by blast
qed

subsection \<open>Hold\<close>

text \<open>
  Claim C2. In the phase \<open>playing\<close> with an active piece, hold enabled and an empty hold
  slot, \<open>hold()\<close> stores the type of the active piece in the hold slot and spawns the next
  piece from the queue, as the claim says. But \<open>spawnNextPiece\<close> sets \<open>canHold\<close> back to
  true, so, when that spawn has not ended the game, a second \<open>hold()\<close> right after it is not
  a no-op: it puts the type of the replacement piece into the hold slot, disables hold, and
  makes the first piece active again at its spawn position unless the swap ends the game.
\<close>

theorem hold_twice_swaps_again:
  assumes "state s = playing" and "active s = Some a" and "canHold s" and "holdPiece s = None"
    and "state (hold C s) = playing"
  shows "holdPiece (hold C s) = Some (ptype a) \<and>
         (\<exists>t rest. fst (refillQueue_loop (queue s) (rng s)) = t # rest \<and>
            active (hold C s) = Some (createPiece t) \<and> queue (hold C s) = rest \<and>
            canHold (hold C s) \<and>
            holdPiece (hold C (hold C s)) = Some t \<and>
            \<not> canHold (hold C (hold C s)) \<and>
            (state (hold C (hold C s)) = playing \<longrightarrow>
               active (hold C (hold C s)) = Some (createPiece (ptype a))))"
proof -
  let ?s1 = "s\<lparr>holdPiece := Some (ptype a), canHold := False, active := None\<rparr>"
  have h1: "hold C s = spawnNextPiece C ?s1"
    using assms(1-4) by (simp add: hold_def Let_def)
  from refillQueue_nonempty [of ?s1] obtain t rest where
    q: "fst (refillQueue_loop (queue s) (rng s)) = t # rest"
    by (cases "fst (refillQueue_loop (queue s) (rng s))") (auto simp: refillQueue_def Let_def)
  have q1: "fst (refillQueue_loop (queue ?s1) (rng ?s1)) = t # rest"
    using q by simp
  have st: "state (spawnNextPiece C ?s1) \<noteq> over"
    using assms(5) h1 by simp
  have a1: "active (hold C s) = Some (createPiece t)" "queue (hold C s) = rest"
    using spawnNextPiece_dequeues(1) [OF q1, of C] spawnNextPiece_dequeues(3) [OF q1 st] h1
    by simp_all
  have c1: "canHold (hold C s)"
    using q1 st unfolding h1
    by (auto simp: spawnNextPiece_def refillQueue_def Let_def endGame_def split: if_splits)
  have hp: "holdPiece (hold C s) = Some (ptype a)"
    unfolding h1 by (simp add: spawnNextPiece_fields)
  have t: "ptype (createPiece t) = t"
    by (simp add: createPiece_def)
  have h2: "holdPiece (hold C (hold C s)) = Some t" "\<not> canHold (hold C (hold C s))"
    "state (hold C (hold C s)) = playing \<longrightarrow>
       active (hold C (hold C s)) = Some (createPiece (ptype a))"
    using assms(5) a1(1) c1 hp t
    by (simp_all add: hold_def [of C "hold C s"] Let_def endGame_def)
  from hp q a1 c1 h2 show ?thesis by blast
qed

theorem hold_twice_swaps_again_witness:
  "state (newGame sampleCatalog zeroRng) = playing \<and>
   active (newGame sampleCatalog zeroRng) = Some (createPiece PcO) \<and>
   canHold (newGame sampleCatalog zeroRng) \<and>
   holdPiece (newGame sampleCatalog zeroRng) = None \<and>
   state (hold sampleCatalog (newGame sampleCatalog zeroRng)) = playing \<and>
   holdPiece (hold sampleCatalog (newGame sampleCatalog zeroRng)) = Some PcO \<and>
   active (hold sampleCatalog (newGame sampleCatalog zeroRng)) = Some (createPiece PcT) \<and>
   holdPiece (hold sampleCatalog (hold sampleCatalog (newGame sampleCatalog zeroRng))) = Some PcT \<and>
   active (hold sampleCatalog (hold sampleCatalog (newGame sampleCatalog zeroRng)))
     = Some (createPiece PcO)"
proof -
  let ?s = "newGame sampleCatalog zeroRng"
  have a1: "state ?s = playing"
    by code_simp
  have a2: "active ?s = Some (createPiece PcO)"
    by code_simp
  have a3: "canHold ?s"
    by code_simp
  have a4: "holdPiece ?s = None"
    by code_simp
  have a5: "state (hold sampleCatalog ?s) = playing"
    by code_simp
  note a = a1 a2 a3 a4 a5
  have q: "fst (refillQueue_loop (queue ?s) (rng ?s)) =
      [PcT, PcS, PcZ, PcJ, PcL, PcI, PcO, PcT, PcS, PcZ, PcJ, PcL, PcI]"
    by code_simp
  have p: "state (hold sampleCatalog (hold sampleCatalog ?s)) = playing"
    by code_simp
  have o: "ptype (createPiece PcO) = PcO"
    by (simp add: createPiece_def)
  from hold_twice_swaps_again [OF a] q p o a show ?thesis
    by auto
qed

subsection \<open>Hard drop\<close>

lemma collides_below_floor:
  assumes "row < length (getMatrix C t rot)" and "col < length (getMatrix C t rot ! row)"
    and "getMatrix C t rot ! row ! col" and "TOTAL_ROWS \<le> y + int row"
  shows "collides C b t x y rot"
  unfolding collides_cells using assms by (auto simp: cellBlocked_def)

lemma getDropDistance_loop_returns:
  assumes "row < length (getMatrix C (ptype a) (rotation a))"
    and "col < length (getMatrix C (ptype a) (rotation a) ! row)"
    and "getMatrix C (ptype a) (rotation a) ! row ! col"
  shows "\<exists>d. getDropDistance_loop C b a d0 = Some d \<and> d0 \<le> d \<and>
             (\<forall>k. d0 < k \<and> k \<le> d \<longrightarrow> \<not> collides C b (ptype a) (px a) (py a + k) (rotation a)) \<and>
             collides C b (ptype a) (px a) (py a + d + 1) (rotation a)"
proof (induction "nat (TOTAL_ROWS - (py a + d0 + 1 + int row))" arbitrary: d0)
  case 0
  then have "TOTAL_ROWS \<le> py a + d0 + 1 + int row" by simp
  then have hit: "collides C b (ptype a) (px a) (py a + d0 + 1) (rotation a)"
    by (intro collides_below_floor [OF assms]) simp
  then have "getDropDistance_loop C b a d0 = Some d0"
    by (subst getDropDistance_loop.simps) simp
  with hit show ?case by auto
next
  case (Suc n)
  show ?case
  proof (cases "collides C b (ptype a) (px a) (py a + d0 + 1) (rotation a)")
    case True
    then have "getDropDistance_loop C b a d0 = Some d0"
      by (subst getDropDistance_loop.simps) simp
    with True show ?thesis by auto
  next
    case False
    have "n = nat (TOTAL_ROWS - (py a + (d0 + 1) + 1 + int row))"
      using Suc.hyps(2) by linarith
    from Suc.hyps(1) [OF this] obtain d where
      d: "getDropDistance_loop C b a (d0 + 1) = Some d" "d0 + 1 \<le> d"
        "\<forall>k. d0 + 1 < k \<and> k \<le> d \<longrightarrow> \<not> collides C b (ptype a) (px a) (py a + k) (rotation a)"
        "collides C b (ptype a) (px a) (py a + d + 1) (rotation a)"
      by blast
    have "getDropDistance_loop C b a d0 = Some d"
      using False d(1) by (subst getDropDistance_loop.simps) simp
    moreover have "\<not> collides C b (ptype a) (px a) (py a + k) (rotation a)"
      if "d0 < k" "k \<le> d" for k
    proof (cases "k = d0 + 1")
      case True
      with False show ?thesis by (simp add: add.assoc)
    next
      case False
      with that d(3) show ?thesis by simp
    qed
    ultimately show ?thesis using d(2,4) by auto
  qed
qed

lemma overhangState_run:
  "run sampleCatalog overhangCommands (newGame sampleCatalog zeroRng) = Some overhangState"
proof -
  have "run sampleCatalog overhangCommands (newGame sampleCatalog zeroRng) \<noteq> None"
    by code_simp
  then show ?thesis
    by (auto simp: overhangState_def)
qed

lemma overhangState_reachable: "reachable sampleCatalog overhangState"
  using reachable.constructed overhangState_run by (rule reachable_run)

text \<open>
  Claim C8, as stated, fails: the distance that \<open>hardDrop\<close> finds is not the largest
  distance at which the translated piece is free. In the overhang state the S piece at
  column 1 drops 19 rows and comes to rest on the arm of the T piece: it collides when
  translated by 20 rows, and translated by 21 rows it is free again, in the gap under the
  arm. \<open>hardDrop\<close> scores \<open>2 * 19\<close> and stamps the piece in rows 18 and 19.
\<close>

theorem hardDrop_spec_counterexample:
  "reachable sampleCatalog overhangState \<and>
   state overhangState = playing \<and>
   active overhangState = Some \<lparr>ptype = PcS, rotation = 0, px = 1, py = - 1\<rparr> \<and>
   getDropDistance sampleCatalog overhangState = Some 19 \<and>
   collides sampleCatalog (board overhangState) PcS 1 (- 1 + 20) 0 \<and>
   \<not> collides sampleCatalog (board overhangState) PcS 1 (- 1 + 21) 0 \<and>
   map_option score (hardDrop sampleCatalog overhangState)
     = Some (score overhangState + 2 * 19) \<and>
   map_option (\<lambda>s'. (board s' ! 18 ! 2, board s' ! 18 ! 3, board s' ! 19 ! 1, board s' ! 19 ! 2))
       (hardDrop sampleCatalog overhangState)
     = Some (Some PcS, Some PcS, Some PcS, Some PcS) \<and>
   map_option (\<lambda>s'. (board s' ! 20 ! 2, board s' ! 20 ! 3, board s' ! 21 ! 1, board s' ! 21 ! 2))
       (hardDrop sampleCatalog overhangState)
     = Some (None, None, None, None)"
proof -
  have "(let s = overhangState; r = hardDrop sampleCatalog s in
     state s = playing \<and>
     active s = Some \<lparr>ptype = PcS, rotation = 0, px = 1, py = - 1\<rparr> \<and>
     getDropDistance sampleCatalog s = Some 19 \<and>
     collides sampleCatalog (board s) PcS 1 (- 1 + 20) 0 \<and>
     \<not> collides sampleCatalog (board s) PcS 1 (- 1 + 21) 0 \<and>
     map_option score r = Some (score s + 2 * 19) \<and>
     map_option (\<lambda>s'. (board s' ! 18 ! 2, board s' ! 18 ! 3, board s' ! 19 ! 1, board s' ! 19 ! 2)) r
       = Some (Some PcS, Some PcS, Some PcS, Some PcS) \<and>
     map_option (\<lambda>s'. (board s' ! 20 ! 2, board s' ! 20 ! 3, board s' ! 21 ! 1, board s' ! 21 ! 2)) r
       = Some (None, None, None, None))"
    by code_simp
  with overhangState_reachable show ?thesis
    by (simp add: Let_def)
qed

text \<open>
  Claim C8, amended. With an active piece (one with an occupied cell in its matrix of the
  shape table) in the phase \<open>playing\<close>, \<open>hardDrop\<close> finds the distance \<open>d \<ge> 0\<close> of the
  straight descent: the piece does not collide when translated down by any of
  1, ..., \<open>d\<close> rows, it collides one row further, and \<open>d\<close> is the largest distance all of
  whose steps are free. If \<open>d = 0\<close> nothing changes; otherwise the piece moves down \<open>d\<close>
  rows, \<open>2 * d\<close> is added to the score, and the piece is locked in the same call. The
  search returns for every such piece. Hard-dropping the O piece of a new game stamps it
  at the bottom of the board, adds \<open>2 * d\<close> points, spawns the next piece in the same call
  and leaves the phase \<open>playing\<close>.
\<close>

theorem hardDrop_spec:
  assumes "state s = playing" and "active s = Some a"
    and "m = TETROMINO_SHAPES C (ptype a) ! (rotation a mod length (TETROMINO_SHAPES C (ptype a)))"
    and "row < length m" and "col < length (m ! row)" and "m ! row ! col"
  shows "\<exists>d. getDropDistance C s = Some d \<and> 0 \<le> d \<and>
             (\<forall>k. 1 \<le> k \<and> k \<le> d \<longrightarrow>
                  \<not> collides C (board s) (ptype a) (px a) (py a + k) (rotation a)) \<and>
             collides C (board s) (ptype a) (px a) (py a + d + 1) (rotation a) \<and>
             (\<forall>d'. (\<forall>k. 1 \<le> k \<and> k \<le> d' \<longrightarrow>
                      \<not> collides C (board s) (ptype a) (px a) (py a + k) (rotation a))
                   \<longrightarrow> d' \<le> d) \<and>
             hardDrop C s =
               Some (if d = 0 then s
                     else lockPiece C
                            (s\<lparr>active := Some (a\<lparr>py := py a + d\<rparr>), score := score s + 2 * d\<rparr>))"
proof -
  note cell = assms(4-6) [unfolded assms(3) getMatrix_table [symmetric]]
  from getDropDistance_loop_returns [OF cell, of "board s" 0] obtain d where
    d: "getDropDistance_loop C (board s) a 0 = Some d" "0 \<le> d"
      "\<forall>k. 0 < k \<and> k \<le> d \<longrightarrow> \<not> collides C (board s) (ptype a) (px a) (py a + k) (rotation a)"
      "collides C (board s) (ptype a) (px a) (py a + d + 1) (rotation a)"
    by blast
  have g: "getDropDistance C s = Some d"
    using assms(2) d(1) by (simp add: getDropDistance_def)
  have "hardDrop C s =
      Some (if d = 0 then s
            else lockPiece C
                   (s\<lparr>active := Some (a\<lparr>py := py a + d\<rparr>), score := score s + 2 * d\<rparr>))"
    using assms(1,2) g d(2) by (simp add: hardDrop_def mult.commute)
  moreover have "d' \<le> d"
    if free: "\<forall>k. 1 \<le> k \<and> k \<le> d' \<longrightarrow>
        \<not> collides C (board s) (ptype a) (px a) (py a + k) (rotation a)" for d'
  proof (rule ccontr)
    assume "\<not> d' \<le> d"
    with d(2) have "1 \<le> d + 1 \<and> d + 1 \<le> d'" by simp
    with free have "\<not> collides C (board s) (ptype a) (px a) (py a + (d + 1)) (rotation a)"
      by blast
    with d(4) show False by (simp add: add.assoc)
  qed
  ultimately show ?thesis
    using g d(2,3,4) by auto
qed

theorem hardDrop_spec_witness:
  "state (newGame sampleCatalog zeroRng) = playing \<and>
   active (newGame sampleCatalog zeroRng) = Some (createPiece PcO) \<and>
   sampleShapes PcO ! 0 ! 0 ! 1 \<and>
   board (newGame sampleCatalog zeroRng) = createBoard \<and>
   getDropDistance sampleCatalog (newGame sampleCatalog zeroRng) = Some 21 \<and>
   (\<exists>s'. hardDrop sampleCatalog (newGame sampleCatalog zeroRng) = Some s' \<and>
      s' = lockPiece sampleCatalog
             ((newGame sampleCatalog zeroRng)
                \<lparr>active := Some ((createPiece PcO)\<lparr>py := py (createPiece PcO) + 21\<rparr>),
                 score := score (newGame sampleCatalog zeroRng) + 2 * 21\<rparr>) \<and>
      board s' = createBoard
        [20 := emptyRow[4 := Some PcO, 5 := Some PcO],
         21 := emptyRow[4 := Some PcO, 5 := Some PcO]] \<and>
      score s' = 2 * 21 \<and>
      active s' = Some (createPiece PcT) \<and>
      state s' = playing)"
proof -
  let ?s = "newGame sampleCatalog zeroRng"
  have a1: "state ?s = playing"
    by code_simp
  have a2: "active ?s = Some (createPiece PcO)"
    by code_simp
  note a = a1 a2
  have m0: "sampleShapes PcO ! 0 =
      TETROMINO_SHAPES sampleCatalog (ptype (createPiece PcO)) !
        (rotation (createPiece PcO) mod
           length (TETROMINO_SHAPES sampleCatalog (ptype (createPiece PcO))))"
    by code_simp
  have m1: "0 < length (sampleShapes PcO ! 0)"
    by code_simp
  have m2: "1 < length (sampleShapes PcO ! 0 ! 0)"
    by code_simp
  have m3: "sampleShapes PcO ! 0 ! 0 ! 1"
    by code_simp
  note m = m0 m1 m2 m3
  have b: "board ?s = createBoard"
    by code_simp
  have g: "getDropDistance sampleCatalog ?s = Some 21"
    by code_simp
  have e: "(let r = hardDrop sampleCatalog ?s
            in board (the r) = createBoard
                 [20 := emptyRow[4 := Some PcO, 5 := Some PcO],
                  21 := emptyRow[4 := Some PcO, 5 := Some PcO]] \<and>
               score (the r) = 2 * 21 \<and> active (the r) = Some (createPiece PcT) \<and>
               state (the r) = playing)"
    by code_simp
  from hardDrop_spec [OF a m] g
  have "hardDrop sampleCatalog ?s =
      Some (lockPiece sampleCatalog
             (?s\<lparr>active := Some ((createPiece PcO)\<lparr>py := py (createPiece PcO) + 21\<rparr>),
                 score := score ?s + 2 * 21\<rparr>))"
    by auto
  with e a b g m3 show ?thesis
    by (auto simp: Let_def)
qed

subsection \<open>Gravity and lock delay\<close>

lemma timerAfter_Suc:
  "timerAfter interval t (Suc j) = subDouble (timerAfter interval t j) interval"
  by (induction j arbitrary: t) simp_all

lemma update_loop_step:
  assumes "active s = Some a" and "interval \<le> gravityTimer s"
    and "\<not> collides C (board s) (ptype a) (px a) (py a + 1) (rotation a)"
  shows "update_loop C interval s = update_loop C interval (afterGravity C interval 1 False s a)"
proof -
  let ?s1 = "s\<lparr>gravityTimer := subDouble (gravityTimer s) interval\<rparr>"
  have tm: "tryMove C 0 1 ?s1 =
      (True, ?s1\<lparr>active := Some (a\<lparr>py := py a + 1\<rparr>), lockTimer := 0,
                 grounded := collides C (board s) (ptype a) (px a) (py a + 1 + 1) (rotation a)\<rparr>)"
    using assms(1,3) by (simp add: tryMove_def Let_def checkGrounded_def)
  have eq: "(if softDropActive (snd (tryMove C 0 1 ?s1))
             then (snd (tryMove C 0 1 ?s1))\<lparr>score := score (snd (tryMove C 0 1 ?s1)) + 1\<rparr>
             else snd (tryMove C 0 1 ?s1)) = afterGravity C interval 1 False s a"
    unfolding tm by (simp add: afterGravity_def)
  show ?thesis
    using assms(1,2) eq tm by (subst update_loop.simps) (simp add: Let_def)
qed

lemma afterGravity_zero: "active s = Some a \<Longrightarrow> afterGravity C interval 0 False s a = s"
  by (simp add: afterGravity_def)

lemma afterGravity_Suc:
  "afterGravity C interval k False (afterGravity C interval 1 False s a) (a\<lparr>py := py a + 1\<rparr>)
     = afterGravity C interval (Suc k) False s a"
  by (simp add: afterGravity_def algebra_simps)

lemma update_loop_steps:
  assumes "active s = Some a"
    and "\<forall>j<k. interval \<le> timerAfter interval (gravityTimer s) j \<and>
           \<not> collides C (board s) (ptype a) (px a) (py a + int j + 1) (rotation a)"
  shows "update_loop C interval s = update_loop C interval (afterGravity C interval k False s a)"
  using assms
proof (induction k arbitrary: s a)
  case 0
  then show ?case by (simp add: afterGravity_zero)
next
  case (Suc k)
  from Suc.prems(2) [rule_format, of 0]
  have one: "interval \<le> gravityTimer s"
      "\<not> collides C (board s) (ptype a) (px a) (py a + 1) (rotation a)"
    by simp_all
  let ?s' = "afterGravity C interval 1 False s a"
  let ?a' = "a\<lparr>py := py a + 1\<rparr>"
  have act: "active ?s' = Some ?a'"
    by (simp add: afterGravity_def)
  have rest: "\<forall>j<k. interval \<le> timerAfter interval (gravityTimer ?s') j \<and>
           \<not> collides C (board ?s') (ptype ?a') (px ?a') (py ?a' + int j + 1) (rotation ?a')"
  proof (intro allI impI)
    fix j :: nat
    assume j: "j < k"
    with Suc.prems(2) [rule_format, of "Suc j"]
    have "interval \<le> timerAfter interval (gravityTimer s) (Suc j)"
      "\<not> collides C (board s) (ptype a) (px a) (py a + int (Suc j) + 1) (rotation a)"
      by simp_all
    then show "interval \<le> timerAfter interval (gravityTimer ?s') j \<and>
           \<not> collides C (board ?s') (ptype ?a') (px ?a') (py ?a' + int j + 1) (rotation ?a')"
      by (simp add: afterGravity_def algebra_simps)
  qed
  have "update_loop C interval s = update_loop C interval ?s'"
    using Suc.prems(1) one by (rule update_loop_step)
  also have "\<dots> = update_loop C interval (afterGravity C interval k False ?s' ?a')"
    using act rest by (rule Suc.IH)
  finally show ?case
    by (simp only: afterGravity_Suc)
qed

lemma update_loop_stop:
  assumes "active s = Some a"
  shows "\<not> interval \<le> timerAfter interval (gravityTimer s) k \<Longrightarrow>
         update_loop C interval (afterGravity C interval k False s a)
           = Some (afterGravity C interval k False s a)"
    and "interval \<le> timerAfter interval (gravityTimer s) k \<Longrightarrow>
         collides C (board s) (ptype a) (px a) (py a + int k + 1) (rotation a) \<Longrightarrow>
         update_loop C interval (afterGravity C interval k False s a)
           = Some (afterGravity C interval k True s a)"
proof -
  let ?t = "afterGravity C interval k False s a"
  have t: "gravityTimer ?t = timerAfter interval (gravityTimer s) k"
    "active ?t = Some (a\<lparr>py := py a + int k\<rparr>)" "board ?t = board s"
    by (simp_all add: afterGravity_def)
  show "update_loop C interval ?t = Some ?t"
    if "\<not> interval \<le> timerAfter interval (gravityTimer s) k"
    using that t(1) by (subst update_loop.simps) simp
  show "update_loop C interval ?t = Some (afterGravity C interval k True s a)"
    if "interval \<le> timerAfter interval (gravityTimer s) k"
      and "collides C (board s) (ptype a) (px a) (py a + int k + 1) (rotation a)"
  proof -
    let ?t1 = "?t\<lparr>gravityTimer := subDouble (gravityTimer ?t) interval\<rparr>"
    have tm: "tryMove C 0 1 ?t1 = (False, ?t1\<lparr>grounded := True\<rparr>)"
      using that(2) t(2,3) by (simp add: tryMove_def Let_def)
    have eq: "(snd (tryMove C 0 1 ?t1))\<lparr>grounded := True\<rparr> = afterGravity C interval k True s a"
      unfolding tm by (simp add: afterGravity_def timerAfter_Suc del: timerAfter.simps(2))
    have "update_loop C interval ?t = Some ((snd (tryMove C 0 1 ?t1))\<lparr>grounded := True\<rparr>)"
      using that(1) t(1,2) tm by (subst update_loop.simps) (simp add: Let_def)
    with eq show ?thesis by (simp only:)
  qed
qed

text \<open>
  The loop ends: a piece with an occupied cell collides once that cell is below the floor,
  whatever the timer does.
\<close>

lemma gravity_steps_exist:
  assumes "row < length (getMatrix C (ptype a) (rotation a))"
    and "col < length (getMatrix C (ptype a) (rotation a) ! row)"
    and "getMatrix C (ptype a) (rotation a) ! row ! col"
  shows "\<exists>k. (\<forall>j<k. interval \<le> timerAfter interval t j \<and>
                  \<not> collides C b (ptype a) (px a) (py a + int j + 1) (rotation a)) \<and>
             (\<not> interval \<le> timerAfter interval t k \<or>
              collides C b (ptype a) (px a) (py a + int k + 1) (rotation a))"
proof -
  define P where "P j \<longleftrightarrow> \<not> interval \<le> timerAfter interval t j \<or>
      collides C b (ptype a) (px a) (py a + int j + 1) (rotation a)" for j :: nat
  have "TOTAL_ROWS \<le> py a + int (nat (TOTAL_ROWS - py a)) + 1 + int row"
    by linarith
  then have "collides C b (ptype a) (px a) (py a + int (nat (TOTAL_ROWS - py a)) + 1) (rotation a)"
    by (rule collides_below_floor [OF assms])
  then have "P (nat (TOTAL_ROWS - py a))" by (simp add: P_def)
  define k where "k = (LEAST j. P j)"
  have Pk: "P k" unfolding k_def using \<open>P (nat (TOTAL_ROWS - py a))\<close> by (rule LeastI)
  have least: "\<not> P j" if "j < k" for j
    using that unfolding k_def by (rule not_less_Least)
  from Pk least show ?thesis unfolding P_def by blast
qed

lemma update_loop_result:
  assumes "active s1 = Some a"
    and "row < length (getMatrix C (ptype a) (rotation a))"
    and "col < length (getMatrix C (ptype a) (rotation a) ! row)"
    and "getMatrix C (ptype a) (rotation a) ! row ! col"
  shows "\<exists>k failed.
      (\<forall>j<k. interval \<le> timerAfter interval (gravityTimer s1) j \<and>
          \<not> collides C (board s1) (ptype a) (px a) (py a + int j + 1) (rotation a)) \<and>
      (failed \<longleftrightarrow> interval \<le> timerAfter interval (gravityTimer s1) k) \<and>
      (failed \<longrightarrow> collides C (board s1) (ptype a) (px a) (py a + int k + 1) (rotation a)) \<and>
      update_loop C interval s1 = Some (afterGravity C interval k failed s1 a)"
proof -
  from gravity_steps_exist [OF assms(2-4), of interval "gravityTimer s1" "board s1"]
  obtain k where
    steps: "\<forall>j<k. interval \<le> timerAfter interval (gravityTimer s1) j \<and>
              \<not> collides C (board s1) (ptype a) (px a) (py a + int j + 1) (rotation a)"
    and stop: "\<not> interval \<le> timerAfter interval (gravityTimer s1) k \<or>
              collides C (board s1) (ptype a) (px a) (py a + int k + 1) (rotation a)"
    by blast
  define failed where "failed \<longleftrightarrow> interval \<le> timerAfter interval (gravityTimer s1) k"
  have hit: "collides C (board s1) (ptype a) (px a) (py a + int k + 1) (rotation a)" if failed
    using that stop by (simp add: failed_def)
  have "update_loop C interval s1 = update_loop C interval (afterGravity C interval k False s1 a)"
    using assms(1) steps by (rule update_loop_steps)
  also have "\<dots> = Some (afterGravity C interval k failed s1 a)"
  proof (cases failed)
    case True
    then have "interval \<le> timerAfter interval (gravityTimer s1) k"
      by (simp add: failed_def)
    with True hit update_loop_stop(2) [OF assms(1)] show ?thesis by simp
  next
    case False
    then have "\<not> interval \<le> timerAfter interval (gravityTimer s1) k"
      by (simp add: failed_def)
    with False update_loop_stop(1) [OF assms(1)] show ?thesis by simp
  qed
  finally have "update_loop C interval s1 = Some (afterGravity C interval k failed s1 a)" .
  with steps hit show ?thesis
    unfolding failed_def by blast
qed

text \<open>
  The commands return whenever the matrices of the catalog have an occupied cell.
\<close>

lemma update_returns:
  assumes "\<forall>t rot. hasCell (getMatrix C t rot)"
  shows "\<exists>s'. update C delta s = Some s'"
proof (cases "state s \<noteq> playing \<or> active s = None")
  case True
  then show ?thesis by (simp add: update_def)
next
  case False
  then obtain a where a: "active s = Some a" by auto
  let ?i = "if softDropActive s then SOFT_DROP_INTERVAL else gravityInterval s"
  let ?s1 = "s\<lparr>gravityTimer := addDouble (gravityTimer s) delta\<rparr>"
  from assms obtain row col where cell:
    "row < length (getMatrix C (ptype a) (rotation a))"
    "col < length (getMatrix C (ptype a) (rotation a) ! row)"
    "getMatrix C (ptype a) (rotation a) ! row ! col"
    unfolding hasCell_def by blast
  have "active ?s1 = Some a" using a by simp
  from update_loop_result [OF this cell, of ?i] obtain s2 where
    "update_loop C ?i ?s1 = Some s2"
    by blast
  with False show ?thesis
    by (simp add: update_def Let_def)
qed

lemma hardDrop_returns:
  assumes "\<forall>t rot. hasCell (getMatrix C t rot)"
  shows "\<exists>s'. hardDrop C s = Some s'"
proof (cases "active s")
  case None
  then show ?thesis by (simp add: hardDrop_def)
next
  case (Some a)
  from assms obtain row col where
    "row < length (getMatrix C (ptype a) (rotation a))"
    "col < length (getMatrix C (ptype a) (rotation a) ! row)"
    "getMatrix C (ptype a) (rotation a) ! row ! col"
    unfolding hasCell_def by blast
  from getDropDistance_loop_returns [OF this, of "board s" 0] obtain d where
    "getDropDistance_loop C (board s) a 0 = Some d"
    by blast
  with Some show ?thesis
    by (simp add: hardDrop_def getDropDistance_def)
qed

lemma exec_returns:
  assumes "reachable C s" and "\<forall>t rot. hasCell (getMatrix C t rot)"
  shows "\<exists>s'. exec C c s = Some s'"
proof (cases c)
  case (Update delta)
  with assms(2) show ?thesis
    using update_returns by simp
next
  case HardDrop
  with assms(2) show ?thesis
    using hardDrop_returns by simp
qed simp_all

text \<open>
  Rounding to a double, characterised: the result is the multiple of the unit in the last
  place that lies less than half a unit from the number.
\<close>

lemma nearest_integer:
  fixes q :: rat
  assumes "\<bar>q - of_int n\<bar> < 1 / 2"
  shows "(if q - of_int \<lfloor>q\<rfloor> < 1 / 2 then \<lfloor>q\<rfloor>
          else if 1 / 2 < q - of_int \<lfloor>q\<rfloor> then \<lfloor>q\<rfloor> + 1
          else if even \<lfloor>q\<rfloor> then \<lfloor>q\<rfloor> else \<lfloor>q\<rfloor> + 1) = n"
proof -
  from assms have lo: "of_int n - 1 / 2 < q" and hi: "q < of_int n + 1 / 2"
    by linarith+
  show ?thesis
  proof (cases "of_int n \<le> q")
    case True
    have fl: "\<lfloor>q\<rfloor> = n"
    proof (rule floor_unique)
      show "of_int n \<le> q" by (rule True)
      show "q < of_int n + 1" using hi by linarith
    qed
    have "q - of_int \<lfloor>q\<rfloor> < 1 / 2"
      unfolding fl using hi by linarith
    then show ?thesis
      by (simp only: if_True fl)
  next
    case False
    have fl: "\<lfloor>q\<rfloor> = n - 1"
    proof (rule floor_unique)
      show "of_int (n - 1) \<le> q" unfolding of_int_diff of_int_1 using lo by linarith
      show "q < of_int (n - 1) + 1" unfolding of_int_diff of_int_1 using False by linarith
    qed
    have "\<not> q - of_int \<lfloor>q\<rfloor> < 1 / 2" and "1 / 2 < q - of_int \<lfloor>q\<rfloor>"
      unfolding fl of_int_diff of_int_1 using lo by linarith+
    then have "(if q - of_int \<lfloor>q\<rfloor> < 1 / 2 then \<lfloor>q\<rfloor>
            else if 1 / 2 < q - of_int \<lfloor>q\<rfloor> then \<lfloor>q\<rfloor> + 1
            else if even \<lfloor>q\<rfloor> then \<lfloor>q\<rfloor> else \<lfloor>q\<rfloor> + 1) = \<lfloor>q\<rfloor> + 1"
      by (simp only: if_True if_False)
    then show ?thesis
      by (simp only: fl diff_add_cancel)
  qed
qed

lemma roundDouble_nearest:
  assumes "0 < x" and "binaryExponent x = e" and "- 1022 \<le> e"
    and "\<bar>x / pow2 (e - 52) - of_int n\<bar> < 1 / 2"
  shows "roundDouble x = of_int n * pow2 (e - 52)"
proof -
  have e: "max (binaryExponent x) (- 1022) = e"
    using assms(2,3) by simp
  have x: "\<bar>x\<bar> = x" "sgn x = 1" "x \<noteq> 0"
    using assms(1) by simp_all
  show ?thesis
    by (simp only: roundDouble_def Let_def x e nearest_integer [OF assms(4)] if_False mult_1)
qed

text \<open>
  The gravity interval at level 10 is the double \<open>64.15158495985582\<close>: the speed
  \<open>0.8 - 9 * 0.007\<close> is the double \<open>414894115671507 / 2 ^ 49\<close>, its ninth power rounds to
  \<open>4622608865926935 / 2 ^ 56\<close>, and the product with 1000 rounds to
  \<open>1128566617657943 / 2 ^ 44\<close>.
\<close>

lemma binaryExponent_speed10: "binaryExponent ((414894115671507 / 562949953421312) ^ 9) = - 4"
proof -
  let ?x = "(414894115671507 / 562949953421312 :: rat) ^ 9"
  have "\<lceil>1 / ?x\<rceil> = 16"
    by (rule ceiling_unique) (simp_all add: power_divide)
  moreover have "\<not> 1 \<le> ?x" by (simp add: power_divide)
  moreover have "bitlen 15 = 4" by code_simp
  ultimately show ?thesis by (simp add: binaryExponent_def)
qed

lemma roundDouble_speed10: "roundDouble ((414894115671507 / 562949953421312) ^ 9) = 4622608865926935 / 72057594037927936"
proof -
  have "roundDouble ((414894115671507 / 562949953421312) ^ 9) = of_int 4622608865926935 * pow2 (- 4 - 52)"
    by (rule roundDouble_nearest [OF _ binaryExponent_speed10]) (simp_all add: pow2_def power_divide abs_less_iff)
  then show ?thesis by (simp add: pow2_def)
qed


lemma computeGravityInterval_level10:
  assumes "level s = 10"
  shows "computeGravityInterval s = 1128566617657943 / 17592186044416"
proof -
  have speed: "max (roundDouble (1 / 10))
      (subDouble (roundDouble (8 / 10)) (mulDouble 9 (roundDouble (7 / 1000))))
      = 414894115671507 / 562949953421312"
    by code_simp
  have ms: "max 50 (mulDouble (4622608865926935 / 72057594037927936) 1000)
      = 1128566617657943 / 17592186044416"
    by code_simp
  have levelIndex: "max 0 (level s - 1) = 9"
    using assms by simp
  show ?thesis
    unfolding computeGravityInterval_def Let_def levelIndex
    by (simp only: of_int_numeral nat_numeral speed roundDouble_speed10 ms)
qed

text \<open>
  The timers follow the double arithmetic of the code. Under soft drop (interval 50),
  \<open>update(0.1)\<close> and then \<open>update(49.9)\<close> bring the gravity timer to the double sum of
  \<open>0.1\<close> and \<open>49.9\<close>, which is 50, although the two doubles add up to less than 50 exactly:
  the second call steps the piece down one row and scores the point.
\<close>

lemma update_double_sum:
  "roundDouble (1 / 10) + roundDouble (499 / 10) < 50 \<and>
   addDouble (roundDouble (1 / 10)) (roundDouble (499 / 10)) = 50 \<and>
   map_option (\<lambda>s. (map_option py (active s), score s, gravityTimer s))
     (run sampleCatalog
        [SetSoftDrop True, Update (roundDouble (1 / 10)), Update (roundDouble (499 / 10))]
        (newGame sampleCatalog zeroRng))
     = Some (Some 0, 1, 0)"
  by code_simp

text \<open>
  Claim C4, as stated, fails on the failed step: the loop takes the interval from the
  timer before it tries the step. Here the O piece rests on the floor with the gravity
  timer at 0 and soft drop held (interval 50); \<open>update(60)\<close> tries one step, which fails,
  and leaves the timer at 10, not at 60.
\<close>

theorem update_gravity_counterexample:
  "state restingState = playing \<and> softDropActive restingState \<and>
   gravityTimer restingState = 0 \<and>
   map_option py (active restingState) = Some 20 \<and>
   checkGrounded sampleCatalog restingState \<and>
   map_option gravityTimer (update sampleCatalog 60 restingState) = Some 10 \<and>
   map_option active (update sampleCatalog 60 restingState) = Some (active restingState)"
  by code_simp

text \<open>
  Claim C4, amended. In the phase \<open>playing\<close> with an active piece (one with an occupied
  cell), \<open>update(delta)\<close> adds \<open>delta\<close> to the gravity timer and then, while the timer is at
  least the interval (the soft-drop interval if soft drop is held, else the gravity
  interval), takes the interval from the timer and tries to step the piece down one row.
  The piece steps down \<open>k\<close> rows: each of these steps finds the timer at least the interval
  and the row below free, and scores one point under soft drop. Stepping ends when the
  timer is below the interval, or with a failed attempt at a step that collides; the
  failed attempt has taken the interval from the timer too, and it marks the piece
  grounded. If the piece is grounded after the loop, \<open>delta\<close> is added to the lock timer and
  the piece is locked once the lock timer has reached 500 ms. All sums and differences are
  those of the double arithmetic.
\<close>

theorem update_gravity:
  assumes "state s = playing" and "active s = Some a"
    and "interval = (if softDropActive s then SOFT_DROP_INTERVAL else gravityInterval s)"
    and "m = TETROMINO_SHAPES C (ptype a) ! (rotation a mod length (TETROMINO_SHAPES C (ptype a)))"
    and "row < length m" and "col < length (m ! row)" and "m ! row ! col"
  shows "\<exists>k failed.
      (\<forall>j<k. interval \<le> timerAfter interval (addDouble (gravityTimer s) delta) j \<and>
          \<not> collides C (board s) (ptype a) (px a) (py a + int j + 1) (rotation a)) \<and>
      (failed \<longleftrightarrow> interval \<le> timerAfter interval (addDouble (gravityTimer s) delta) k) \<and>
      (failed \<longrightarrow> collides C (board s) (ptype a) (px a) (py a + int k + 1) (rotation a)) \<and>
      (let s2 = afterGravity C interval k failed
                  (s\<lparr>gravityTimer := addDouble (gravityTimer s) delta\<rparr>) a
       in gravityTimer s2 =
            timerAfter interval (addDouble (gravityTimer s) delta)
              (k + (if failed then 1 else 0)) \<and>
          update C delta s =
            Some (if grounded s2
                  then (let s3 = s2\<lparr>lockTimer := addDouble (lockTimer s2) delta\<rparr>
                        in if LOCK_DELAY_MS \<le> lockTimer s3 then lockPiece C s3 else s3)
                  else s2))"
proof -
  let ?s1 = "s\<lparr>gravityTimer := addDouble (gravityTimer s) delta\<rparr>"
  have act1: "active ?s1 = Some a" using assms(2) by simp
  note cell = assms(5-7) [unfolded assms(4) getMatrix_table [symmetric]]
  from update_loop_result [OF act1 cell, of interval] obtain k failed where
    steps: "\<forall>j<k. interval \<le> timerAfter interval (addDouble (gravityTimer s) delta) j \<and>
          \<not> collides C (board s) (ptype a) (px a) (py a + int j + 1) (rotation a)"
    and failed: "failed \<longleftrightarrow> interval \<le> timerAfter interval (addDouble (gravityTimer s) delta) k"
    and hit: "failed \<longrightarrow> collides C (board s) (ptype a) (px a) (py a + int k + 1) (rotation a)"
    and loop: "update_loop C interval ?s1 = Some (afterGravity C interval k failed ?s1 a)"
    by auto
  have act2: "active (afterGravity C interval k failed ?s1 a) \<noteq> None"
    by (simp add: afterGravity_def)
  have tm: "gravityTimer (afterGravity C interval k failed ?s1 a) =
      timerAfter interval (addDouble (gravityTimer s) delta) (k + (if failed then 1 else 0))"
    by (simp add: afterGravity_def)
  have "update C delta s =
      Some (if grounded (afterGravity C interval k failed ?s1 a)
            then (let s3 = (afterGravity C interval k failed ?s1 a)
                     \<lparr>lockTimer :=
                        addDouble (lockTimer (afterGravity C interval k failed ?s1 a)) delta\<rparr>
                  in if LOCK_DELAY_MS \<le> lockTimer s3 then lockPiece C s3 else s3)
            else afterGravity C interval k failed ?s1 a)"
    using assms(1,2) loop [unfolded assms(3)] act2
    unfolding update_def assms(3) by (simp add: Let_def)
  with steps failed hit tm show ?thesis
    unfolding Let_def by blast
qed

theorem update_gravity_witness:
  "state restingState = playing \<and>
   active restingState = Some \<lparr>ptype = PcO, rotation = 0, px = 3, py = 20\<rparr> \<and>
   (50 :: rat) = (if softDropActive restingState then SOFT_DROP_INTERVAL
                  else gravityInterval restingState) \<and>
   sampleShapes PcO ! 0 ! 0 ! 1 \<and>
   (\<exists>s'. update sampleCatalog 60 restingState = Some s' \<and>
      active s' = active restingState \<and> grounded s' \<and>
      gravityTimer s' = 10 \<and> lockTimer s' = 60)"
proof -
  let ?a = "\<lparr>ptype = PcO, rotation = 0, px = 3, py = 20\<rparr>"
  have h1: "state restingState = playing"
    by code_simp
  have h2: "active restingState = Some ?a"
    by code_simp
  have h3: "(50 :: rat) = (if softDropActive restingState then SOFT_DROP_INTERVAL
                  else gravityInterval restingState)"
    by code_simp
  have m0: "sampleShapes PcO ! 0 =
      TETROMINO_SHAPES sampleCatalog (ptype ?a) !
        (rotation ?a mod length (TETROMINO_SHAPES sampleCatalog (ptype ?a)))"
    by code_simp
  have m1: "0 < length (sampleShapes PcO ! 0)"
    by code_simp
  have m2: "1 < length (sampleShapes PcO ! 0 ! 0)"
    by code_simp
  have m3: "sampleShapes PcO ! 0 ! 0 ! 1"
    by code_simp
  have t1: "gravityTimer restingState = 0"
    by code_simp
  have t2: "lockTimer restingState = 0"
    by code_simp
  have d1: "addDouble 0 60 = 60"
    by code_simp
  have d2: "timerAfter 50 60 0 = 60"
    by simp
  have d3: "timerAfter 50 60 (0 + 1) = 10"
    by code_simp
  have below: "collides sampleCatalog (board restingState) (ptype ?a) (px ?a) (py ?a + int 0 + 1)
      (rotation ?a)"
    by code_simp
  from update_gravity [OF h1 h2 h3 m0 m1 m2 m3, of 60] obtain k failed where
    steps: "\<forall>j<k. 50 \<le> timerAfter 50 (addDouble (gravityTimer restingState) 60) j \<and>
          \<not> collides sampleCatalog (board restingState) (ptype ?a) (px ?a) (py ?a + int j + 1)
              (rotation ?a)"
    and failed: "failed \<longleftrightarrow> 50 \<le> timerAfter 50 (addDouble (gravityTimer restingState) 60) k"
    and upd: "update sampleCatalog 60 restingState =
        Some (if grounded (afterGravity sampleCatalog 50 k failed
                 (restingState\<lparr>gravityTimer := addDouble (gravityTimer restingState) 60\<rparr>) ?a)
              then (let s3 = (afterGravity sampleCatalog 50 k failed
                       (restingState\<lparr>gravityTimer := addDouble (gravityTimer restingState) 60\<rparr>)
                       ?a)
                     \<lparr>lockTimer := addDouble (lockTimer (afterGravity sampleCatalog 50 k failed
                       (restingState\<lparr>gravityTimer := addDouble (gravityTimer restingState) 60\<rparr>)
                       ?a)) 60\<rparr>
                    in if LOCK_DELAY_MS \<le> lockTimer s3 then lockPiece sampleCatalog s3 else s3)
              else afterGravity sampleCatalog 50 k failed
                 (restingState\<lparr>gravityTimer := addDouble (gravityTimer restingState) 60\<rparr>) ?a)"
    unfolding Let_def by blast
  have k: "k = 0"
  proof (rule ccontr)
    assume "k \<noteq> 0"
    then have "0 < k" by simp
    with steps have "\<not> collides sampleCatalog (board restingState) (ptype ?a) (px ?a)
        (py ?a + int 0 + 1) (rotation ?a)"
      by blast
    with below show False by contradiction
  qed
  have f: failed
    using failed by (simp add: k t1 d1)
  have "\<exists>s'. update sampleCatalog 60 restingState = Some s' \<and>
      active s' = active restingState \<and> grounded s' \<and>
      gravityTimer s' = 10 \<and> lockTimer s' = 60"
    unfolding upd using h2 d3 by (simp add: k f t1 t2 d1 afterGravity_def Let_def)
  with h1 h2 h3 m3 show ?thesis by simp
qed

end
